theory Spec2Isabelle
  imports Complex_Main "HOL-Library.Char_ord" "HOL-Library.List_Lexorder" "HOL-Library.AList"
    "HOL-Library.Sublist"
begin

section \<open>Python primitives used by the grading and error-analysis code\<close>

text \<open>
  The JSON objects handled by the program are Python dictionaries with string keys. A
  dictionary is an association list in insertion order; a well-formed dictionary has
  pairwise distinct keys. Keys are ASCII strings. The accuracy, a Python float, is
  idealised as an exact rational.

  A JSON value is either NaN, which \<^verbatim>\<open>json.loads\<close> accepts and which Python's \<^verbatim>\<open>==\<close>
  makes unequal to every value including itself, or a value on which \<^verbatim>\<open>==\<close> is an
  equivalence; the latter are taken up to that equivalence as the type \<open>'v\<close>.
\<close>

datatype 'v json_value = NaN | Val 'v

text \<open>\<^verbatim>\<open>x == y\<close> on two JSON values.\<close>

fun py_eq :: "'v json_value \<Rightarrow> 'v json_value \<Rightarrow> bool" where
  "py_eq (Val a) (Val b) = (a = b)"
| "py_eq x y = False"

type_synonym 'v dict = "(string \<times> 'v json_value) list"

datatype error = ValueError | KeyError

text \<open>\<^verbatim>\<open>int(s)\<close> on an ASCII string: the surrounding whitespace (tab, line feed, vertical
  tab, form feed, carriage return, space) is stripped, one sign is allowed, and the digits
  may be separated by single underscores. Anything else is a ValueError (None).
  The interpreter's optional limit on the number of digits is not modelled.\<close>

definition is_space :: "char \<Rightarrow> bool" where
  "is_space c = (c \<in> set [CHR 0x09, CHR 0x0A, CHR 0x0B, CHR 0x0C, CHR 0x0D, CHR 0x20])"

definition is_digit :: "char \<Rightarrow> bool" where
  "is_digit c = (c \<in> set ''0123456789'')"

definition digit_val :: "char \<Rightarrow> nat" where
  "digit_val c = of_char c - 48"

definition strip :: "string \<Rightarrow> string" where
  "strip s = rev (dropWhile is_space (rev (dropWhile is_space s)))"

fun parse_digits :: "string \<Rightarrow> nat \<Rightarrow> nat option" where
  "parse_digits [] acc = Some acc"
| "parse_digits [c] acc = (if is_digit c then Some (10 * acc + digit_val c) else None)"
| "parse_digits (c # d # cs) acc =
     (if is_digit c then parse_digits (d # cs) (10 * acc + digit_val c)
      else if c = CHR ''_'' \<and> is_digit d then parse_digits cs (10 * acc + digit_val d)
      else None)"

definition parse_unsigned :: "string \<Rightarrow> nat option" where
  "parse_unsigned s = (case s of [] \<Rightarrow> None
     | c # cs \<Rightarrow> if is_digit c then parse_digits cs (digit_val c) else None)"

definition py_int :: "string \<Rightarrow> int option" where
  "py_int s = (case strip s of [] \<Rightarrow> None
     | c # cs \<Rightarrow>
        if c = CHR ''-'' then map_option (\<lambda>n. - int n) (parse_unsigned cs)
        else if c = CHR ''+'' then map_option int (parse_unsigned cs)
        else map_option int (parse_unsigned (c # cs)))"

text \<open>\<^verbatim>\<open>str(k)\<close> on an integer: the decimal rendering without leading zeros.\<close>

fun digits_of :: "nat \<Rightarrow> string" where
  "digits_of n = (if n < 10 then [char_of (48 + n)]
                  else digits_of (n div 10) @ [char_of (48 + n mod 10)])"

declare digits_of.simps [simp del]

definition py_str :: "int \<Rightarrow> string" where
  "py_str k = (if k < 0 then CHR ''-'' # digits_of (nat (- k)) else digits_of (nat k))"

text \<open>\<^verbatim>\<open>s.isdigit()\<close>: non-empty and made of digits only.\<close>

definition isdigit :: "string \<Rightarrow> bool" where
  "isdigit s = (s \<noteq> [] \<and> (\<forall>c \<in> set s. is_digit c))"

text \<open>\<^verbatim>\<open>[int(k) for k in d.keys()]\<close>: a ValueError as soon as one key does not parse.\<close>

definition int_keys :: "'v dict \<Rightarrow> int list option" where
  "int_keys d = those (map py_int (map fst d))"

text \<open>\<^verbatim>\<open>[d[k] for k in ks]\<close>: a KeyError at the first key that is absent.\<close>

fun lookup_all :: "'v dict \<Rightarrow> string list \<Rightarrow> error + 'v json_value list" where
  "lookup_all d [] = Inr []"
| "lookup_all d (k # ks) =
     (case map_of d k of
        None \<Rightarrow> Inl KeyError
      | Some v \<Rightarrow> (case lookup_all d ks of Inl e \<Rightarrow> Inl e | Inr vs \<Rightarrow> Inr (v # vs)))"

text \<open>A key that is the decimal rendering of the integer it parses to.\<close>

definition canonical_key :: "string \<Rightarrow> bool" where
  "canonical_key k = (case py_int k of None \<Rightarrow> False | Some n \<Rightarrow> py_str n = k)"

definition canonical_dict :: "'v dict \<Rightarrow> bool" where
  "canonical_dict d = (distinct (map fst d) \<and> (\<forall>k \<in> set (map fst d). canonical_key k))"

section \<open>grading\_utils.py: edit distance\<close>

text \<open>\<^verbatim>\<open>dp[i][j] = v\<close> on the list-of-lists table.\<close>

definition set_cell :: "nat list list \<Rightarrow> nat \<Rightarrow> nat \<Rightarrow> nat \<Rightarrow> nat list list" where
  "set_cell dp i j v = dp[i := (dp ! i)[j := v]]"

text \<open>The value stored into \<^verbatim>\<open>dp[i][j]\<close> by the body of the nested loop (lines 27-32).\<close>

definition edit_cell ::
  "'v json_value list \<Rightarrow> 'v json_value list \<Rightarrow> nat list list \<Rightarrow> nat \<Rightarrow> nat \<Rightarrow> nat" where
  "edit_cell seq1 seq2 dp i j =
     (let cost = (if py_eq (seq1 ! (i - 1)) (seq2 ! (j - 1)) then 0 else 1)
      in min (dp ! (i - 1) ! j + 1) (min (dp ! i ! (j - 1) + 1) (dp ! (i - 1) ! (j - 1) + cost)))"

text \<open>\<^verbatim>\<open>calculate_edit_distance(seq1, seq2, allow_transposition)\<close>. The transposition
  branch of the source is inside a string literal, so the flag is never read.\<close>

definition calculate_edit_distance ::
  "'v json_value list \<Rightarrow> 'v json_value list \<Rightarrow> bool \<Rightarrow> nat" where
  "calculate_edit_distance seq1 seq2 allow_transposition =
     (let m = length seq1; n = length seq2;
          dp0 = replicate (m + 1) (replicate (n + 1) 0);
          dp1 = fold (\<lambda>i dp. set_cell dp i 0 i) [0..<m + 1] dp0;
          dp2 = fold (\<lambda>j dp. set_cell dp 0 j j) [0..<n + 1] dp1;
          dp3 = fold (\<lambda>i dp. fold (\<lambda>j dp. set_cell dp i j (edit_cell seq1 seq2 dp i j))
                                   [1..<n + 1] dp) [1..<m + 1] dp2
      in dp3 ! m ! n)"

text \<open>The classical Levenshtein distance as the recurrence over prefix lengths.\<close>

fun lev_dp :: "'v json_value list \<Rightarrow> 'v json_value list \<Rightarrow> nat \<Rightarrow> nat \<Rightarrow> nat" where
  "lev_dp a b 0 j = j"
| "lev_dp a b (Suc i) 0 = Suc i"
| "lev_dp a b (Suc i) (Suc j) =
     min (lev_dp a b i (Suc j) + 1)
         (min (lev_dp a b (Suc i) j + 1) (lev_dp a b i j + (if py_eq (a ! i) (b ! j) then 0 else 1)))"

definition levenshtein :: "'v json_value list \<Rightarrow> 'v json_value list \<Rightarrow> nat" where
  "levenshtein a b = lev_dp a b (length a) (length b)"

text \<open>The same recurrence by recursion on the lists, used for the metric laws.\<close>

fun lev :: "'v json_value list \<Rightarrow> 'v json_value list \<Rightarrow> nat" where
  "lev [] ys = length ys"
| "lev (x # xs) [] = Suc (length xs)"
| "lev (x # xs) (y # ys) =
     min (lev xs (y # ys) + 1)
         (min (lev (x # xs) ys + 1) (lev xs ys + (if py_eq x y then 0 else 1)))"

section \<open>grading\_utils.py: grade\_answers\<close>

record grade_result =
  correct_count :: int
  answered_count :: int
  total :: int
  accuracy :: rat
  edit_distance :: int
  missing_count :: int
  extra_count :: int
  wrong_count :: int

text \<open>The nested function \<^verbatim>\<open>values_sequence_from_dict\<close> (lines 108-119). The handler
  catches ValueError and TypeError only: a KeyError raised by \<^verbatim>\<open>d[str(k)]\<close> escapes.\<close>

definition values_sequence_from_dict ::
  "bool \<Rightarrow> 'v dict \<Rightarrow> error + 'v json_value list" where
  "values_sequence_from_dict order_by_key d =
     (if order_by_key then
        (case int_keys d of
           Some ks \<Rightarrow> lookup_all d (map py_str (sort ks))
         | None \<Rightarrow> lookup_all d (sort (map fst d)))
      else Inr (map snd d))"

text \<open>The loop of lines 154-158 counting the keys answered with the right value.\<close>

fun count_correct :: "'v dict \<Rightarrow> 'v dict \<Rightarrow> int list \<Rightarrow> int \<Rightarrow> error + int" where
  "count_correct student standard [] c = Inr c"
| "count_correct student standard (key # keys) c =
     (let key_str = py_str key in
      case map_of student key_str of
        None \<Rightarrow> count_correct student standard keys c
      | Some sv \<Rightarrow>
          (case map_of standard key_str of
             None \<Rightarrow> Inl KeyError
           | Some tv \<Rightarrow>
               count_correct student standard keys (if py_eq sv tv then c + 1 else c)))"

text \<open>Lines 134-162: the per-key counts, as (correct, missing, extra).\<close>

definition key_counts :: "'v dict \<Rightarrow> 'v dict \<Rightarrow> error + (int \<times> int \<times> int)" where
  "key_counts student standard =
     (case (int_keys standard, int_keys student) of
        (Some sk, Some tk) \<Rightarrow>
          (let standard_keys = sort sk; student_keys = sort tk;
               standard_key_set = set (map py_str standard_keys);
               student_key_set = set (map py_str student_keys)
           in case count_correct student standard standard_keys 0 of
                Inl e \<Rightarrow> Inl e
              | Inr c \<Rightarrow> Inr (c, int (card (standard_key_set - student_key_set)),
                              int (card (student_key_set - standard_key_set))))
      | _ \<Rightarrow>
          (let standard_key_set = set (map fst standard);
               student_key_set = set (map fst student);
               c = card {k \<in> standard_key_set \<inter> student_key_set.
                           case (map_of student k, map_of standard k) of
                             (Some sv, Some tv) \<Rightarrow> py_eq sv tv
                           | _ \<Rightarrow> False}
           in Inr (int c, int (card (standard_key_set - student_key_set)),
                   int (card (student_key_set - standard_key_set)))))"

text \<open>Line 166, the accuracy from the edit distance and the longer length.\<close>

definition accuracy_of :: "nat \<Rightarrow> nat \<Rightarrow> rat" where
  "accuracy_of edit_dist max_length =
     (if max_length > 0 then (1 - of_nat edit_dist / of_nat max_length) * 100 else 0)"

definition grade_answers :: "'v dict \<Rightarrow> 'v dict \<Rightarrow> bool \<Rightarrow> bool \<Rightarrow> error + grade_result" where
  "grade_answers student_answers standard_answers allow_transposition order_by_key =
     (if standard_answers = [] then
        Inr \<lparr>correct_count = 0, answered_count = int (length student_answers), total = 0,
             accuracy = 0, edit_distance = int (length student_answers), missing_count = 0,
             extra_count = int (length student_answers), wrong_count = 0\<rparr>
      else if student_answers = [] then
        Inr \<lparr>correct_count = 0, answered_count = 0, total = int (length standard_answers),
             accuracy = 0, edit_distance = int (length standard_answers),
             missing_count = int (length standard_answers), extra_count = 0, wrong_count = 0\<rparr>
      else
        (case values_sequence_from_dict order_by_key standard_answers of
           Inl e \<Rightarrow> Inl e
         | Inr standard_sequence \<Rightarrow>
        (case values_sequence_from_dict order_by_key student_answers of
           Inl e \<Rightarrow> Inl e
         | Inr student_sequence \<Rightarrow>
        (let edit_dist = calculate_edit_distance standard_sequence student_sequence
                           allow_transposition;
             tot = int (length standard_answers);
             answered = int (length student_answers)
         in (case key_counts student_answers standard_answers of
               Inl e \<Rightarrow> Inl e
             | Inr (correct, missing, extra) \<Rightarrow>
                 (let wrong = answered - correct - extra;
                      max_length = max (length standard_sequence) (length student_sequence)
                  in Inr \<lparr>correct_count = correct, answered_count = answered, total = tot,
                          accuracy = accuracy_of edit_dist max_length,
                          edit_distance = int edit_dist,
                          missing_count = missing, extra_count = extra,
                          wrong_count = wrong\<rparr>))))))"

section \<open>Longest common subsequence (both analysis scripts)\<close>

text \<open>The value stored into \<^verbatim>\<open>dp[i][j]\<close> by the fill loop (lines 28-31).\<close>

definition lcs_cell :: "'a list \<Rightarrow> 'a list \<Rightarrow> nat list list \<Rightarrow> nat \<Rightarrow> nat \<Rightarrow> nat" where
  "lcs_cell seq1 seq2 dp i j =
     (if seq1 ! (i - 1) = seq2 ! (j - 1) then dp ! (i - 1) ! (j - 1) + 1
      else max (dp ! (i - 1) ! j) (dp ! i ! (j - 1)))"

definition lcs_table :: "'a list \<Rightarrow> 'a list \<Rightarrow> nat list list" where
  "lcs_table seq1 seq2 =
     (let m = length seq1; n = length seq2;
          dp0 = replicate (m + 1) (replicate (n + 1) 0)
      in fold (\<lambda>i dp. fold (\<lambda>j dp. set_cell dp i j (lcs_cell seq1 seq2 dp i j))
                            [1..<n + 1] dp) [1..<m + 1] dp0)"

text \<open>One iteration of the backtrace loop of \<^verbatim>\<open>longest_common_subsequence\<close>
  (analyze\_errors.py, lines 36-44), on the loop state \<open>(i, j, lcs)\<close>.\<close>

definition backtrace_step ::
  "'a list \<Rightarrow> 'a list \<Rightarrow> nat list list \<Rightarrow> nat \<times> nat \<times> 'a list \<Rightarrow> nat \<times> nat \<times> 'a list" where
  "backtrace_step seq1 seq2 dp s =
     (case s of (i, j, lcs) \<Rightarrow>
        if seq1 ! (i - 1) = seq2 ! (j - 1) then (i - 1, j - 1, lcs @ [seq1 ! (i - 1)])
        else if dp ! (i - 1) ! j > dp ! i ! (j - 1) then (i - 1, j, lcs)
        else (i, j - 1, lcs))"

function backtrace_loop ::
  "'a list \<Rightarrow> 'a list \<Rightarrow> nat list list \<Rightarrow> nat \<times> nat \<times> 'a list \<Rightarrow> 'a list" where
  "backtrace_loop seq1 seq2 dp (i, j, lcs) =
     (if i > 0 \<and> j > 0 then backtrace_loop seq1 seq2 dp (backtrace_step seq1 seq2 dp (i, j, lcs))
      else lcs)"
  by pat_completeness auto
termination
  by (relation "measure (\<lambda>(seq1, seq2, dp, i, j, lcs). i + j)")
     (auto simp: backtrace_step_def split: if_splits)

declare backtrace_loop.simps [simp del]

definition longest_common_subsequence :: "'a list \<Rightarrow> 'a list \<Rightarrow> 'a list" where
  "longest_common_subsequence seq1 seq2 =
     rev (backtrace_loop seq1 seq2 (lcs_table seq1 seq2) (length seq1, length seq2, []))"

text \<open>The same loop in \<^verbatim>\<open>longest_common_subsequence_with_indices\<close>
  (analyze\_position\_accuracy.py), which records the index \<open>i - 1\<close> into \<open>seq1\<close>.
  In both loops the elements are compared with HOL equality, which is \<^verbatim>\<open>==\<close> on the integer
  keys the classifier passes and differs from it on value sequences only where both
  elements are NaN.\<close>

definition index_step ::
  "'a list \<Rightarrow> 'a list \<Rightarrow> nat list list \<Rightarrow> nat \<times> nat \<times> nat list \<Rightarrow> nat \<times> nat \<times> nat list" where
  "index_step seq1 seq2 dp s =
     (case s of (i, j, indices) \<Rightarrow>
        if seq1 ! (i - 1) = seq2 ! (j - 1) then (i - 1, j - 1, indices @ [i - 1])
        else if dp ! (i - 1) ! j > dp ! i ! (j - 1) then (i - 1, j, indices)
        else (i, j - 1, indices))"

function index_loop ::
  "'a list \<Rightarrow> 'a list \<Rightarrow> nat list list \<Rightarrow> nat \<times> nat \<times> nat list \<Rightarrow> nat list" where
  "index_loop seq1 seq2 dp (i, j, indices) =
     (if i > 0 \<and> j > 0 then index_loop seq1 seq2 dp (index_step seq1 seq2 dp (i, j, indices))
      else indices)"
  by pat_completeness auto
termination
  by (relation "measure (\<lambda>(seq1, seq2, dp, i, j, indices). i + j)")
     (auto simp: index_step_def split: if_splits)

declare index_loop.simps [simp del]

definition longest_common_subsequence_with_indices :: "'a list \<Rightarrow> 'a list \<Rightarrow> nat list" where
  "longest_common_subsequence_with_indices seq1 seq2 =
     rev (index_loop seq1 seq2 (lcs_table seq1 seq2) (length seq1, length seq2, []))"

section \<open>analyze\_errors.py: classification of one record\<close>

text \<open>\<^verbatim>\<open>sorted([int(k) for k in d.keys()])\<close>.\<close>

definition sorted_int_keys :: "'v dict \<Rightarrow> error + int list" where
  "sorted_int_keys d = (case int_keys d of None \<Rightarrow> Inl ValueError | Some ks \<Rightarrow> Inr (sort ks))"

text \<open>The loop collecting \<^verbatim>\<open>correct_model_keys\<close> (lines 95-99 and 171-175): the value is
  compared at the same key; \<^verbatim>\<open>model_answers[k_str]\<close> raises KeyError when the rendering
  of the parsed key is not itself a key of the response.\<close>

fun correct_keys_loop :: "'v dict \<Rightarrow> 'v dict \<Rightarrow> int list \<Rightarrow> int list \<Rightarrow> error + int list" where
  "correct_keys_loop standard_answers model_answers [] acc = Inr acc"
| "correct_keys_loop standard_answers model_answers (k # ks) acc =
     (let k_str = py_str k in
      case map_of standard_answers k_str of
        None \<Rightarrow> correct_keys_loop standard_answers model_answers ks acc
      | Some sv \<Rightarrow>
          (case map_of model_answers k_str of
             None \<Rightarrow> Inl KeyError
           | Some mv \<Rightarrow> correct_keys_loop standard_answers model_answers ks
                          (if py_eq mv sv then acc @ [k] else acc)))"

record misorder_result =
  standard_keys :: "int list"
  correct_model_keys :: "int list"
  anchors :: "int list"
  misorder_keys :: "int list"

text \<open>The body of the record loop of \<^verbatim>\<open>analyze_misorder_errors\<close> (lines 87-106).\<close>

definition misorder_record :: "'v dict \<Rightarrow> 'v dict \<Rightarrow> error + misorder_result" where
  "misorder_record standard_answers model_answers =
     (case sorted_int_keys standard_answers of
        Inl e \<Rightarrow> Inl e
      | Inr sk \<Rightarrow>
     (case sorted_int_keys model_answers of
        Inl e \<Rightarrow> Inl e
      | Inr mk \<Rightarrow>
     (case correct_keys_loop standard_answers model_answers mk [] of
        Inl e \<Rightarrow> Inl e
      | Inr cmk \<Rightarrow>
          (let lcs = longest_common_subsequence sk cmk
           in Inr \<lparr>standard_keys = sk, correct_model_keys = cmk, anchors = lcs,
                   misorder_keys = filter (\<lambda>k. k \<notin> set lcs) cmk\<rparr>))))"

text \<open>The two scans for the nearest anchor (lines 198-207): leftwards from
  \<open>halluc_pos - 1\<close> down to 0, rightwards from \<open>halluc_pos + 1\<close> to the end.\<close>

fun scan_left :: "int list \<Rightarrow> int list \<Rightarrow> nat \<Rightarrow> int option" where
  "scan_left all_model_keys lcs 0 = None"
| "scan_left all_model_keys lcs (Suc i) =
     (if all_model_keys ! i \<in> set lcs then Some (all_model_keys ! i)
      else scan_left all_model_keys lcs i)"

function scan_right :: "int list \<Rightarrow> int list \<Rightarrow> nat \<Rightarrow> int option" where
  "scan_right all_model_keys lcs i =
     (if i < length all_model_keys then
        (if all_model_keys ! i \<in> set lcs then Some (all_model_keys ! i)
         else scan_right all_model_keys lcs (i + 1))
      else None)"
  by pat_completeness auto
termination
  by (relation "measure (\<lambda>(all_model_keys, lcs, i). length all_model_keys - i)") auto

declare scan_right.simps [simp del]

text \<open>\<^verbatim>\<open>xs.index(x)\<close> for an element of the list: the first position holding it.\<close>

definition index_of :: "'a list \<Rightarrow> 'a \<Rightarrow> nat" where
  "index_of xs x = length (takeWhile (\<lambda>y. y \<noteq> x) xs)"

text \<open>Lines 191-228 for one hallucinated key: None is the \<^verbatim>\<open>continue\<close> of line 213.\<close>

definition interval_of :: "int list \<Rightarrow> int list \<Rightarrow> int \<Rightarrow> (int \<times> int) option" where
  "interval_of all_model_keys lcs halluc_key =
     (let halluc_pos = index_of all_model_keys halluc_key;
          left_anchor = scan_left all_model_keys lcs halluc_pos;
          right_anchor = scan_right all_model_keys lcs (halluc_pos + 1)
      in case (left_anchor, right_anchor) of
           (None, None) \<Rightarrow> None
         | (None, Some r) \<Rightarrow> Some (0, r)
         | (Some l, None) \<Rightarrow> Some (l, 41)
         | (Some l, Some r) \<Rightarrow> Some (l, r))"

record hallucination_result =
  reference_keys :: "int list"
  model_keys :: "int list"
  lcs_anchors :: "int list"
  hallucination_keys :: "int list"
  intervals :: "(int \<times> int) list"

text \<open>The body of the record loop of \<^verbatim>\<open>analyze_hallucination_errors\<close> (lines 159-229);
  \<open>intervals\<close> lists, in order, the intervals whose frequency the loop increments.\<close>

definition hallucination_record :: "'v dict \<Rightarrow> 'v dict \<Rightarrow> error + hallucination_result" where
  "hallucination_record standard_answers model_answers =
     (case sorted_int_keys standard_answers of
        Inl e \<Rightarrow> Inl e
      | Inr sk \<Rightarrow>
     (case sorted_int_keys model_answers of
        Inl e \<Rightarrow> Inl e
      | Inr all_model_keys \<Rightarrow>
     (case correct_keys_loop standard_answers model_answers all_model_keys [] of
        Inl e \<Rightarrow> Inl e
      | Inr cmk \<Rightarrow>
          (let lcs = longest_common_subsequence sk cmk;
               hks = filter (\<lambda>k. k \<notin> set sk) all_model_keys
           in Inr \<lparr>reference_keys = sk, model_keys = all_model_keys, lcs_anchors = lcs,
                   hallucination_keys = hks,
                   intervals = List.map_filter (interval_of all_model_keys lcs) hks\<rparr>))))"

text \<open>The loop collecting \<^verbatim>\<open>correct_keys\<close> in \<^verbatim>\<open>analyze_missing_errors\<close> (lines 272-275),
  guarded by \<^verbatim>\<open>k_str.isdigit()\<close>.\<close>

fun missing_correct_keys ::
  "'v dict \<Rightarrow> 'v dict \<Rightarrow> 'v dict \<Rightarrow> int list \<Rightarrow> error + int list" where
  "missing_correct_keys standard_answers model_answers [] acc = Inr acc"
| "missing_correct_keys standard_answers model_answers ((k_str, v) # items) acc =
     (if isdigit k_str then
        (case map_of standard_answers k_str of
           None \<Rightarrow> missing_correct_keys standard_answers model_answers items acc
         | Some sv \<Rightarrow>
             (case map_of model_answers k_str of
                None \<Rightarrow> Inl KeyError
              | Some mv \<Rightarrow>
                  if py_eq mv sv then
                    (case py_int k_str of
                       None \<Rightarrow> Inl ValueError
                     | Some k \<Rightarrow>
                         missing_correct_keys standard_answers model_answers items (acc @ [k]))
                  else missing_correct_keys standard_answers model_answers items acc))
      else missing_correct_keys standard_answers model_answers items acc)"

text \<open>The body of the record loop of \<^verbatim>\<open>analyze_missing_errors\<close> (lines 265-280): the
  reference keys counted as missing.\<close>

definition missing_record :: "'v dict \<Rightarrow> 'v dict \<Rightarrow> error + int list" where
  "missing_record standard_answers model_answers =
     (case sorted_int_keys standard_answers of
        Inl e \<Rightarrow> Inl e
      | Inr sk \<Rightarrow>
     (case missing_correct_keys standard_answers model_answers model_answers [] of
        Inl e \<Rightarrow> Inl e
      | Inr correct_keys \<Rightarrow> Inr (filter (\<lambda>key. key \<notin> set correct_keys) sk)))"

section \<open>analyze\_errors.py: aggregation over a batch and the rows written\<close>

text \<open>A database row after \<^verbatim>\<open>json.loads\<close>: None when either column fails to load as a
  mapping (the exception is caught and the record skipped).\<close>

type_synonym 'v db_record = "('v dict \<times> 'v dict) option"

text \<open>\<^verbatim>\<open>freq[k] = freq.get(k, 0) + 1\<close> on an insertion-ordered dictionary.\<close>

definition bump :: "('k \<times> nat) list \<Rightarrow> 'k \<Rightarrow> ('k \<times> nat) list" where
  "bump freq k = AList.update k ((case map_of freq k of None \<Rightarrow> 0 | Some c \<Rightarrow> c) + 1) freq"

definition hallucination_step ::
  "'v db_record \<Rightarrow> ((int \<times> int) \<times> nat) list \<times> nat \<Rightarrow> ((int \<times> int) \<times> nat) list \<times> nat" where
  "hallucination_step r st =
     (case st of (hallucination_frequency, total_records) \<Rightarrow>
        (case r of
           None \<Rightarrow> st
         | Some (standard_answers, model_answers) \<Rightarrow>
             (case hallucination_record standard_answers model_answers of
                Inl e \<Rightarrow> st
              | Inr res \<Rightarrow>
                  if hallucination_keys res = [] then (hallucination_frequency, total_records + 1)
                  else (fold (\<lambda>interval freq. bump freq interval) (intervals res)
                             hallucination_frequency,
                        total_records + 1))))"

definition analyze_hallucination_errors ::
  "'v db_record list \<Rightarrow> ((int \<times> int) \<times> nat) list \<times> nat" where
  "analyze_hallucination_errors records =
     (if records = [] then ([], 0) else fold hallucination_step records ([], 0))"

record interval_row =
  row_key_from :: int
  row_key_to :: int
  row_frequency :: nat
  row_probability :: rat
  row_total_records :: nat

text \<open>\<^verbatim>\<open>insert_interval_error_stats\<close>: one row per entry of the frequency dictionary.\<close>

definition insert_interval_error_stats ::
  "((int \<times> int) \<times> nat) list \<Rightarrow> nat \<Rightarrow> interval_row list" where
  "insert_interval_error_stats error_frequency total_records =
     map (\<lambda>((key_from, key_to), frequency).
            \<lparr>row_key_from = key_from, row_key_to = key_to, row_frequency = frequency,
             row_probability = (if total_records > 0
                                then of_nat frequency / of_nat total_records * 100 else 0),
             row_total_records = total_records\<rparr>) error_frequency"

text \<open>The hallucination rows written for one table by \<^verbatim>\<open>analyze_model_errors\<close>.\<close>

definition hallucination_rows :: "'v db_record list \<Rightarrow> interval_row list" where
  "hallucination_rows records =
     (case analyze_hallucination_errors records of
        (halluc_freq, total_halluc) \<Rightarrow> insert_interval_error_stats halluc_freq total_halluc)"

text \<open>\<^verbatim>\<open>analyze_misorder_errors\<close> and \<^verbatim>\<open>analyze_missing_errors\<close>: the frequency of
  each key position over the batch, and the number of records classified.\<close>

definition misorder_step ::
  "'v db_record \<Rightarrow> (int \<times> nat) list \<times> nat \<Rightarrow> (int \<times> nat) list \<times> nat" where
  "misorder_step r st =
     (case st of (misorder_frequency, total_records) \<Rightarrow>
        (case r of
           None \<Rightarrow> st
         | Some (standard_answers, model_answers) \<Rightarrow>
             (case misorder_record standard_answers model_answers of
                Inl e \<Rightarrow> st
              | Inr res \<Rightarrow>
                  (fold (\<lambda>key freq. bump freq key) (misorder_keys res) misorder_frequency,
                   total_records + 1))))"

definition analyze_misorder_errors :: "'v db_record list \<Rightarrow> (int \<times> nat) list \<times> nat" where
  "analyze_misorder_errors records =
     (if records = [] then ([], 0) else fold misorder_step records ([], 0))"

definition missing_step ::
  "'v db_record \<Rightarrow> (int \<times> nat) list \<times> nat \<Rightarrow> (int \<times> nat) list \<times> nat" where
  "missing_step r st =
     (case st of (missing_frequency, total_records) \<Rightarrow>
        (case r of
           None \<Rightarrow> st
         | Some (standard_answers, model_answers) \<Rightarrow>
             (case missing_record standard_answers model_answers of
                Inl e \<Rightarrow> st
              | Inr missing \<Rightarrow>
                  (fold (\<lambda>key freq. bump freq key) missing missing_frequency,
                   total_records + 1))))"

definition analyze_missing_errors :: "'v db_record list \<Rightarrow> (int \<times> nat) list \<times> nat" where
  "analyze_missing_errors records =
     (if records = [] then ([], 0) else fold missing_step records ([], 0))"

text \<open>The number of hallucinated response keys over the records that are classified.\<close>

definition hallucinated_key_count :: "'v db_record list \<Rightarrow> nat" where
  "hallucinated_key_count records =
     sum_list (map (\<lambda>r. case r of
                          None \<Rightarrow> 0
                        | Some (standard_answers, model_answers) \<Rightarrow>
                            (case hallucination_record standard_answers model_answers of
                               Inl e \<Rightarrow> 0
                             | Inr res \<Rightarrow> length (hallucination_keys res))) records)"

text \<open>The anchor interval in the words of the specification: the nearest anchor on each
  side of the first position of the key, with 0 and 41 as the bounds when a side has none,
  and no interval when neither side has an anchor.\<close>

definition nearest_anchor_interval :: "int list \<Rightarrow> int list \<Rightarrow> int \<Rightarrow> (int \<times> int) option" where
  "nearest_anchor_interval keys anchor_keys h =
     (let p = index_of keys h;
          before = filter (\<lambda>k. k \<in> set anchor_keys) (take p keys);
          after = filter (\<lambda>k. k \<in> set anchor_keys) (drop (Suc p) keys)
      in if before = [] \<and> after = [] then None
         else Some (if before = [] then 0 else last before,
                    if after = [] then 41 else hd after))"

text \<open>Keys made of digits that are their own decimal rendering: the non-negative integers
  written without sign, padding or leading zeros.\<close>

definition position_dict :: "'v dict \<Rightarrow> bool" where
  "position_dict d = (canonical_dict d \<and> (\<forall>k \<in> set (map fst d). isdigit k))"

text \<open>The number of records of a batch that are classified without an exception.\<close>

definition classified_count :: "'v db_record list \<Rightarrow> nat" where
  "classified_count records =
     length (filter (\<lambda>r. case r of
                          None \<Rightarrow> False
                        | Some (standard_answers, model_answers) \<Rightarrow>
                            (case hallucination_record standard_answers model_answers of
                               Inl e \<Rightarrow> False
                             | Inr res \<Rightarrow> True)) records)"

text \<open>A key present on both sides whose response value \<^verbatim>\<open>==\<close> the reference value.\<close>

definition value_correct :: "'v dict \<Rightarrow> 'v dict \<Rightarrow> string \<Rightarrow> bool" where
  "value_correct s m k = (case (map_of s k, map_of m k) of
                            (Some sv, Some mv) \<Rightarrow> py_eq mv sv
                          | _ \<Rightarrow> False)"

text \<open>The length of a longest common subsequence of two prefixes, as the recurrence of
  the fill loop.\<close>

fun lcs_dp :: "'a list \<Rightarrow> 'a list \<Rightarrow> nat \<Rightarrow> nat \<Rightarrow> nat" where
  "lcs_dp a b 0 j = 0"
| "lcs_dp a b (Suc i) 0 = 0"
| "lcs_dp a b (Suc i) (Suc j) =
     (if a ! i = b ! j then lcs_dp a b i j + 1
      else max (lcs_dp a b i (Suc j)) (lcs_dp a b (Suc i) j))"

section \<open>Table filling: the invariant shared by both dynamic programs\<close>

definition table_dims :: "nat list list \<Rightarrow> nat \<Rightarrow> nat \<Rightarrow> bool" where
  "table_dims dp m n = (length dp = m + 1 \<and> (\<forall>r \<le> m. length (dp ! r) = n + 1))"

text \<open>The borders, the rows above \<open>i\<close> and the cells of row \<open>i\<close> left of column \<open>k\<close> hold \<open>F\<close>.\<close>

definition filled :: "(nat \<Rightarrow> nat \<Rightarrow> nat) \<Rightarrow> nat list list \<Rightarrow> nat \<Rightarrow> nat \<Rightarrow> nat \<Rightarrow> nat \<Rightarrow> bool" where
  "filled F dp m n i k =
     (table_dims dp m n \<and>
      (\<forall>r c. r \<le> m \<and> c \<le> n \<and> (r = 0 \<or> c = 0 \<or> r < i \<or> (r = i \<and> c < k)) \<longrightarrow> dp ! r ! c = F r c))"

definition local_rule ::
  "(nat \<Rightarrow> nat \<Rightarrow> nat) \<Rightarrow> (nat list list \<Rightarrow> nat \<Rightarrow> nat \<Rightarrow> nat) \<Rightarrow> nat \<Rightarrow> nat \<Rightarrow> bool" where
  "local_rule F g m n =
     (\<forall>dp i j. 1 \<le> i \<and> i \<le> m \<and> 1 \<le> j \<and> j \<le> n \<and>
        dp ! (i - 1) ! j = F (i - 1) j \<and> dp ! i ! (j - 1) = F i (j - 1) \<and>
        dp ! (i - 1) ! (j - 1) = F (i - 1) (j - 1) \<longrightarrow> g dp i j = F i j)"

lemma set_cell_dims: "table_dims dp m n \<Longrightarrow> i \<le> m \<Longrightarrow> table_dims (set_cell dp i j v) m n"
  by (auto simp: table_dims_def set_cell_def nth_list_update)

lemma set_cell_nth:
  "table_dims dp m n \<Longrightarrow> i \<le> m \<Longrightarrow> j \<le> n \<Longrightarrow> r \<le> m \<Longrightarrow>
   set_cell dp i j v ! r ! c = (if r = i \<and> c = j then v else dp ! r ! c)"
  by (auto simp: table_dims_def set_cell_def nth_list_update)

lemma fill_row:
  assumes "local_rule F g m n" "1 \<le> i" "i \<le> m" "k \<le> n" "filled F dp m n i 1"
  shows "filled F (fold (\<lambda>j dp. set_cell dp i j (g dp i j)) [1..<k + 1] dp) m n i (k + 1)"
  using assms(4)
proof (induction k)
  case 0
  then show ?case using assms(5) by simp
next
  case (Suc k)
  let ?dp = "fold (\<lambda>j dp. set_cell dp i j (g dp i j)) [1..<k + 1] dp"
  have IH: "filled F ?dp m n i (k + 1)" using Suc by simp
  have g: "g ?dp i (Suc k) = F i (Suc k)"
    using assms(1-3) Suc.prems IH unfolding local_rule_def filled_def
    by (auto simp: less_Suc_eq_le)
  have "fold (\<lambda>j dp. set_cell dp i j (g dp i j)) [1..<Suc k + 1] dp
        = set_cell ?dp i (Suc k) (g ?dp i (Suc k))"
    by simp
  moreover have "filled F (set_cell ?dp i (Suc k) (F i (Suc k))) m n i (Suc k + 1)"
    using IH assms(3) Suc.prems unfolding filled_def
    by (auto simp: set_cell_dims set_cell_nth)
  ultimately show ?case using g by simp
qed

lemma filled_next_row:
  assumes "filled F dp m n i (n + 1)"
  shows "filled F dp m n (i + 1) 1"
  unfolding filled_def
proof (intro conjI allI impI)
  show "table_dims dp m n" using assms by (simp add: filled_def)
next
  fix r c
  assume h: "r \<le> m \<and> c \<le> n \<and> (r = 0 \<or> c = 0 \<or> r < i + 1 \<or> (r = i + 1 \<and> c < 1))"
  then have "r = 0 \<or> c = 0 \<or> r < i \<or> (r = i \<and> c < n + 1)" by auto
  with h assms show "dp ! r ! c = F r c" unfolding filled_def by blast
qed

lemma fill_rows:
  assumes "local_rule F g m n" "k \<le> m" "filled F dp m n 1 1"
  shows "filled F (fold (\<lambda>i dp. fold (\<lambda>j dp. set_cell dp i j (g dp i j)) [1..<n + 1] dp)
                        [1..<k + 1] dp) m n (k + 1) 1"
  using assms(2)
proof (induction k)
  case 0
  then show ?case using assms(3) by simp
next
  case (Suc k)
  let ?dp = "fold (\<lambda>i dp. fold (\<lambda>j dp. set_cell dp i j (g dp i j)) [1..<n + 1] dp) [1..<k + 1] dp"
  have IH: "filled F ?dp m n (Suc k) 1" using Suc by simp
  have "filled F (fold (\<lambda>j dp. set_cell dp (Suc k) j (g dp (Suc k) j)) [1..<n + 1] ?dp)
          m n (Suc k) (n + 1)"
    using fill_row[OF assms(1) _ _ _ IH, of n] Suc.prems by simp
  then show ?case using filled_next_row by fastforce
qed

lemma zero_dims: "table_dims (replicate (m + 1) (replicate (n + 1) 0)) m n"
  by (auto simp: table_dims_def nth_Cons')

section \<open>The edit distance is the Levenshtein distance\<close>

lemma lev_local: "local_rule (lev_dp a b) (edit_cell a b) m n"
  unfolding local_rule_def edit_cell_def
proof (intro allI impI)
  fix dp :: "nat list list" and i j
  assume h: "1 \<le> i \<and> i \<le> m \<and> 1 \<le> j \<and> j \<le> n \<and>
        dp ! (i - 1) ! j = lev_dp a b (i - 1) j \<and> dp ! i ! (j - 1) = lev_dp a b i (j - 1) \<and>
        dp ! (i - 1) ! (j - 1) = lev_dp a b (i - 1) (j - 1)"
  then obtain i' j' where "i = Suc i'" "j = Suc j'"
    by (metis One_nat_def Suc_le_D)
  with h show "(let cost = if py_eq (a ! (i - 1)) (b ! (j - 1)) then 0 else 1
          in min (dp ! (i - 1) ! j + 1)
                 (min (dp ! i ! (j - 1) + 1) (dp ! (i - 1) ! (j - 1) + cost))) =
         lev_dp a b i j"
    by (simp add: Let_def)
qed

lemma lev_dp_0_right: "lev_dp a b i 0 = i"
  by (cases i) auto

lemma init_col:
  "table_dims dp m n \<Longrightarrow> k \<le> m + 1 \<Longrightarrow>
   table_dims (fold (\<lambda>i dp. set_cell dp i 0 i) [0..<k] dp) m n \<and>
   (\<forall>r c. r \<le> m \<and> c \<le> n \<longrightarrow> fold (\<lambda>i dp. set_cell dp i 0 i) [0..<k] dp ! r ! c =
       (if c = 0 \<and> r < k then r else dp ! r ! c))"
proof (induction k)
  case 0
  then show ?case by simp
next
  case (Suc k)
  then show ?case by (auto simp: set_cell_dims set_cell_nth)
qed

lemma init_row:
  "table_dims dp m n \<Longrightarrow> k \<le> n + 1 \<Longrightarrow>
   table_dims (fold (\<lambda>j dp. set_cell dp 0 j j) [0..<k] dp) m n \<and>
   (\<forall>r c. r \<le> m \<and> c \<le> n \<longrightarrow> fold (\<lambda>j dp. set_cell dp 0 j j) [0..<k] dp ! r ! c =
       (if r = 0 \<and> c < k then c else dp ! r ! c))"
proof (induction k)
  case 0
  then show ?case by simp
next
  case (Suc k)
  then show ?case by (auto simp: set_cell_dims set_cell_nth)
qed

lemma edit_distance_levenshtein: "calculate_edit_distance seq1 seq2 flag = levenshtein seq1 seq2"
proof -
  let ?m = "length seq1" and ?n = "length seq2"
  let ?dp0 = "replicate (?m + 1) (replicate (?n + 1) (0::nat))"
  let ?dp1 = "fold (\<lambda>i dp. set_cell dp i 0 i) [0..<?m + 1] ?dp0"
  let ?dp2 = "fold (\<lambda>j dp. set_cell dp 0 j j) [0..<?n + 1] ?dp1"
  let ?dp3 = "fold (\<lambda>i dp. fold (\<lambda>j dp. set_cell dp i j (edit_cell seq1 seq2 dp i j))
                                   [1..<?n + 1] dp) [1..<?m + 1] ?dp2"
  have d1: "table_dims ?dp1 ?m ?n"
    and v1: "\<forall>r c. r \<le> ?m \<and> c \<le> ?n \<longrightarrow>
                 ?dp1 ! r ! c = (if c = 0 \<and> r < ?m + 1 then r else ?dp0 ! r ! c)"
    using init_col[OF zero_dims, of "?m + 1" ?m ?n] by blast+
  have d2: "table_dims ?dp2 ?m ?n"
    and v2: "\<forall>r c. r \<le> ?m \<and> c \<le> ?n \<longrightarrow>
                 ?dp2 ! r ! c = (if r = 0 \<and> c < ?n + 1 then c else ?dp1 ! r ! c)"
    using init_row[OF d1, of "?n + 1"] by blast+
  have "filled (lev_dp seq1 seq2) ?dp2 ?m ?n 1 1"
    unfolding filled_def using d2 v1 v2 by (auto simp: lev_dp_0_right)
  from fill_rows[OF lev_local _ this, of ?m]
  have "filled (lev_dp seq1 seq2) ?dp3 ?m ?n (?m + 1) 1" by simp
  then have "?dp3 ! ?m ! ?n = lev_dp seq1 seq2 ?m ?n"
    unfolding filled_def by simp
  then show ?thesis
    by (simp add: calculate_edit_distance_def levenshtein_def Let_def)
qed

text \<open>
  C10. The flag \<^verbatim>\<open>allow_transposition\<close> does not change the result of
  \<^verbatim>\<open>calculate_edit_distance\<close>: for either value of the flag the function returns the
  classical Levenshtein distance of the two sequences.
\<close>

theorem transposition_flag_inert:
  "calculate_edit_distance seq1 seq2 b = levenshtein seq1 seq2
   \<and> calculate_edit_distance seq1 seq2 True = calculate_edit_distance seq1 seq2 False"
  by (simp add: edit_distance_levenshtein)

section \<open>Metric laws\<close>

lemma lev_Nil_right: "lev xs [] = length xs"
  by (cases xs) auto

lemma lev_dp_lev:
  "i \<le> length a \<Longrightarrow> j \<le> length b \<Longrightarrow> lev_dp a b i j = lev (rev (take i a)) (rev (take j b))"
proof (induction a b i j rule: lev_dp.induct)
  case (1 a b j)
  then show ?case by simp
next
  case (2 a b i)
  then show ?case by (simp add: lev_Nil_right)
next
  case (3 a b i j)
  then show ?case by (simp add: take_Suc_conv_app_nth)
qed

lemma levenshtein_lev: "levenshtein a b = lev (rev a) (rev b)"
  by (simp add: levenshtein_def lev_dp_lev)

lemma py_eq_iff: "py_eq x y \<longleftrightarrow> x = y \<and> x \<noteq> NaN"
  by (cases x; cases y) auto

lemma py_eq_sym: "py_eq x y = py_eq y x"
  by (auto simp: py_eq_iff)

lemma py_eq_trans: "py_eq x y \<Longrightarrow> py_eq y z \<Longrightarrow> py_eq x z"
  by (auto simp: py_eq_iff)

lemma lev_refl: "NaN \<notin> set xs \<Longrightarrow> lev xs xs = 0"
  by (induction xs) (auto simp: py_eq_iff)

lemma lev_sym: "lev xs ys = lev ys xs"
proof (induction xs ys rule: lev.induct)
  case (3 x xs y ys)
  then show ?case using py_eq_sym[of x y] by (simp add: min.commute min.left_commute)
qed (auto simp: lev_Nil_right)

lemma lev_zero_iff: "lev xs ys = 0 \<longleftrightarrow> xs = ys \<and> NaN \<notin> set xs"
proof (induction xs ys rule: lev.induct)
  case (3 x xs y ys)
  have "lev (x # xs) (y # ys) = 0 \<longleftrightarrow> lev xs ys = 0 \<and> py_eq x y"
    by (auto simp: min_def)
  then show ?case using 3(3) by (auto simp: py_eq_iff)
qed auto

lemma lev_del: "lev (x # xs) ys \<le> lev xs ys + 1"
  by (cases ys) (auto simp: lev_Nil_right)

lemma lev_ins: "lev xs (y # ys) \<le> lev xs ys + 1"
  by (cases xs) auto

lemma lev_sub: "lev (x # xs) (y # ys) \<le> lev xs ys + (if py_eq x y then 0 else 1)"
  by auto

lemma lev_cases:
  "lev (x # xs) (y # ys) = lev xs (y # ys) + 1 \<or> lev (x # xs) (y # ys) = lev (x # xs) ys + 1
   \<or> lev (x # xs) (y # ys) = lev xs ys + (if py_eq x y then 0 else 1)"
  by (simp add: min_def)

lemma lev_upper: "lev xs ys \<le> max (length xs) (length ys)"
proof (induction xs ys rule: lev.induct)
  case (3 x xs y ys)
  have "lev (x # xs) (y # ys) \<le> lev xs ys + 1"
    using lev_sub[of x xs y ys] by (simp split: if_splits)
  with 3 show ?case by simp
qed auto

lemma lev_lower: "length ys \<le> length xs + lev xs ys"
  by (induction xs ys rule: lev.induct) auto

lemma lev_triangle: "lev xs zs \<le> lev xs ys + lev ys zs"
proof (induction "length xs + length ys + length zs" arbitrary: xs ys zs rule: less_induct)
  case less
  show ?case
  proof (cases xs)
    case Nil
    then show ?thesis using lev_lower[of zs ys] by simp
  next
    case X: (Cons x xs')
    show ?thesis
    proof (cases zs)
      case Nil
      then show ?thesis
        using lev_lower[of xs ys] by (simp add: lev_Nil_right lev_sym[of xs ys])
    next
      case Z: (Cons z zs')
      show ?thesis
      proof (cases ys)
        case Nil
        have "lev xs zs \<le> max (length xs) (length zs)" by (rule lev_upper)
        then show ?thesis using Nil by (simp add: lev_Nil_right)
      next
        case Y: (Cons y ys')
        let ?A = "lev xs ys" and ?B = "lev ys zs"
        have dz: "lev xs zs \<le> lev xs zs' + 1" unfolding Z by (rule lev_ins)
        have dx: "lev xs zs \<le> lev xs' zs + 1" unfolding X by (rule lev_del)
        consider (a1) "?A = lev xs' ys + 1" | (a2) "?A = lev xs ys' + 1"
          | (a3) "?A = lev xs' ys' + (if py_eq x y then 0 else 1)"
          using lev_cases[of x xs' y ys'] unfolding X Y by blast
        then show ?thesis
        proof cases
          case a1
          have "lev xs' zs \<le> lev xs' ys + lev ys zs"
            using less[of xs' ys zs] X by simp
          then show ?thesis using a1 dx by simp
        next
          case a2
          consider (b1) "?B = lev ys' zs + 1" | (b2) "?B = lev ys zs' + 1"
            | (b3) "?B = lev ys' zs' + (if py_eq y z then 0 else 1)"
            using lev_cases[of y ys' z zs'] unfolding Y Z by blast
          then show ?thesis
          proof cases
            case b1
            have "lev xs zs \<le> lev xs ys' + lev ys' zs" using less[of xs ys' zs] Y by simp
            then show ?thesis using a2 b1 by simp
          next
            case b2
            have "lev xs zs' \<le> lev xs ys + lev ys zs'" using less[of xs ys zs'] Z by simp
            then show ?thesis using b2 dz by simp
          next
            case b3
            have "lev xs zs' \<le> lev xs ys' + lev ys' zs'" using less[of xs ys' zs'] Y Z by simp
            then show ?thesis using a2 b3 dz by simp
          qed
        next
          case a3
          consider (b1) "?B = lev ys' zs + 1" | (b2) "?B = lev ys zs' + 1"
            | (b3) "?B = lev ys' zs' + (if py_eq y z then 0 else 1)"
            using lev_cases[of y ys' z zs'] unfolding Y Z by blast
          then show ?thesis
          proof cases
            case b1
            have "lev xs' zs \<le> lev xs' ys' + lev ys' zs" using less[of xs' ys' zs] X Y by simp
            then show ?thesis using a3 b1 dx by simp
          next
            case b2
            have "lev xs zs' \<le> lev xs ys + lev ys zs'" using less[of xs ys zs'] Z by simp
            then show ?thesis using b2 dz by simp
          next
            case b3
            have "lev xs' zs' \<le> lev xs' ys' + lev ys' zs'"
              using less[of xs' ys' zs'] X Y Z by simp
            moreover have "lev xs zs \<le> lev xs' zs' + (if py_eq x z then 0 else 1)"
              unfolding X Z by (rule lev_sub)
            ultimately show ?thesis
              using a3 b3 py_eq_trans[of x y z] by (simp split: if_splits)
          qed
        qed
      qed
    qed
  qed
qed

text \<open>
  C9 (as amended). Without transposition \<^verbatim>\<open>calculate_edit_distance\<close> is symmetric and
  satisfies the triangle inequality on all sequences, and the distance of two sequences is 0
  exactly when they are equal and contain no NaN. So on sequences without NaN it is a
  metric: a sequence is at distance 0 from itself, and the accuracy of a non-empty sequence
  against itself is 100.
\<close>

theorem edit_distance_metric:
  "(calculate_edit_distance a b False = 0 \<longleftrightarrow> a = b \<and> NaN \<notin> set a)
   \<and> (NaN \<notin> set s \<longrightarrow> calculate_edit_distance s s False = 0)
   \<and> (NaN \<notin> set s \<and> s \<noteq> [] \<longrightarrow>
        accuracy_of (calculate_edit_distance s s False) (max (length s) (length s)) = 100)
   \<and> calculate_edit_distance a b False = calculate_edit_distance b a False
   \<and> calculate_edit_distance a c False
        \<le> calculate_edit_distance a b False + calculate_edit_distance b c False"
proof -
  have zero: "calculate_edit_distance a b False = 0 \<longleftrightarrow> a = b \<and> NaN \<notin> set a"
    by (simp add: edit_distance_levenshtein levenshtein_lev lev_zero_iff)
  have refl: "NaN \<notin> set s \<longrightarrow> calculate_edit_distance s s False = 0"
    by (simp add: edit_distance_levenshtein levenshtein_lev lev_refl)
  have sym: "calculate_edit_distance a b False = calculate_edit_distance b a False"
    unfolding edit_distance_levenshtein levenshtein_lev by (rule lev_sym)
  have tri: "calculate_edit_distance a c False
        \<le> calculate_edit_distance a b False + calculate_edit_distance b c False"
    unfolding edit_distance_levenshtein levenshtein_lev by (rule lev_triangle)
  have acc: "NaN \<notin> set s \<and> s \<noteq> [] \<longrightarrow>
        accuracy_of (calculate_edit_distance s s False) (max (length s) (length s)) = 100"
    using refl by (simp add: accuracy_of_def)
  show ?thesis using zero refl sym tri acc by blast
qed

theorem edit_distance_metric_witness:
  "NaN \<notin> set [Val (3::nat), Val 1, Val 2] \<and> [Val (3::nat), Val 1, Val 2] \<noteq> []
   \<and> calculate_edit_distance [Val (3::nat), Val 1, Val 2] [Val (3::nat), Val 1, Val 2] False = 0
   \<and> accuracy_of
        (calculate_edit_distance [Val (3::nat), Val 1, Val 2] [Val (3::nat), Val 1, Val 2] False)
        (max (length [Val (3::nat), Val 1, Val 2]) (length [Val (3::nat), Val 1, Val 2])) = 100
   \<and> calculate_edit_distance [Val (1::nat), NaN] [Val (2::nat), Val 1, Val 3] False
       = calculate_edit_distance [Val (2::nat), Val 1, Val 3] [Val (1::nat), NaN] False
   \<and> calculate_edit_distance [Val (1::nat), NaN] [Val (4::nat)] False
        \<le> calculate_edit_distance [Val (1::nat), NaN] [Val (2::nat), Val 1, Val 3] False
           + calculate_edit_distance [Val (2::nat), Val 1, Val 3] [Val (4::nat)] False"
proof -
  have ne: "NaN \<notin> set [Val (3::nat), Val 1, Val 2]" "[Val (3::nat), Val 1, Val 2] \<noteq> []"
    by simp_all
  show ?thesis
    using ne edit_distance_metric [of "[Val (1::nat), NaN]" "[Val (2::nat), Val 1, Val 3]"
                                      "[Val (3::nat), Val 1, Val 2]" "[Val (4::nat)]"]
    by blast
qed

text \<open>
  The sequence holding one NaN is at distance 1 from itself, and its accuracy against
  itself is 0.
\<close>

theorem edit_distance_nan_counterexample:
  "calculate_edit_distance [NaN :: string json_value] [NaN] False = 1
   \<and> calculate_edit_distance [NaN :: string json_value] [NaN] False \<noteq> 0
   \<and> accuracy_of (calculate_edit_distance [NaN :: string json_value] [NaN] False)
        (max (length [NaN :: string json_value]) (length [NaN :: string json_value])) = 0"
  by code_simp

section \<open>Rendering and parsing integers\<close>

lemma digit_char_all:
  "\<forall>d \<in> set [0..<10]. is_digit (char_of (48 + d)) \<and> digit_val (char_of (48 + d)) = d
    \<and> \<not> is_space (char_of (48 + d))"
  by code_simp

lemma digit_char:
  assumes "(d::nat) < 10"
  shows "is_digit (char_of (48 + d)) \<and> digit_val (char_of (48 + d)) = d
    \<and> \<not> is_space (char_of (48 + d))"
proof -
  have "d \<in> set [0..<10]" using assms by simp
  then show ?thesis using digit_char_all by blast
qed

lemma digits_of_all: "\<forall>c \<in> set (digits_of n). is_digit c \<and> \<not> is_space c"
proof (induction n rule: digits_of.induct)
  case (1 n)
  show ?case
  proof (cases "n < 10")
    case True
    then show ?thesis using digit_char[of n] by (subst digits_of.simps) simp
  next
    case False
    then show ?thesis using 1 digit_char[of "n mod 10"] by (subst digits_of.simps) auto
  qed
qed

lemma digits_of_nonempty: "digits_of n \<noteq> []"
  by (subst digits_of.simps) simp

lemma parse_digits_all:
  "\<forall>c \<in> set ds. is_digit c \<Longrightarrow>
   parse_digits ds acc = Some (foldl (\<lambda>a c. 10 * a + digit_val c) acc ds)"
  by (induction ds acc rule: parse_digits.induct) auto

lemma foldl_digits_of: "foldl (\<lambda>a c. 10 * a + digit_val c) 0 (digits_of n) = n"
proof (induction n rule: digits_of.induct)
  case (1 n)
  show ?case
  proof (cases "n < 10")
    case True
    then show ?thesis using digit_char[of n] by (subst digits_of.simps) simp
  next
    case False
    then show ?thesis using 1 digit_char[of "n mod 10"] by (subst digits_of.simps) simp
  qed
qed

lemma parse_unsigned_digits_of: "parse_unsigned (digits_of n) = Some n"
proof -
  obtain c cs where cs: "digits_of n = c # cs"
    using digits_of_nonempty[of n] by (cases "digits_of n") auto
  have all: "\<forall>x \<in> set (c # cs). is_digit x" using digits_of_all[of n] cs by simp
  have "parse_unsigned (c # cs) = parse_digits cs (digit_val c)"
    using all by (simp add: parse_unsigned_def)
  also have "\<dots> = Some (foldl (\<lambda>a c. 10 * a + digit_val c) (digit_val c) cs)"
    using all by (simp add: parse_digits_all)
  also have "foldl (\<lambda>a c. 10 * a + digit_val c) (digit_val c) cs
             = foldl (\<lambda>a c. 10 * a + digit_val c) 0 (c # cs)" by simp
  finally show ?thesis using foldl_digits_of[of n] cs by simp
qed

lemma strip_id:
  assumes "s \<noteq> []" "\<not> is_space (hd s)" "\<not> is_space (last s)"
  shows "strip s = s"
proof -
  have 1: "dropWhile is_space s = s" using assms(1,2) by (cases s) auto
  obtain xs x where sx: "s = xs @ [x]" using assms(1) by (metis append_butlast_last_id)
  then have 2: "dropWhile is_space (rev s) = rev s" using assms(3) by simp
  show ?thesis by (simp add: strip_def 1 2)
qed

lemma py_int_py_str: "py_int (py_str k) = Some k"
proof -
  let ?n = "if k < 0 then nat (- k) else nat k"
  obtain c cs where cs: "digits_of ?n = c # cs"
    using digits_of_nonempty[of ?n] by (cases "digits_of ?n") auto
  have all: "\<forall>x \<in> set (c # cs). is_digit x \<and> \<not> is_space x" using digits_of_all[of ?n] cs by simp
  have lastd: "\<not> is_space (last (c # cs))" using all last_in_set[of "c # cs"] by blast
  have cne: "c \<noteq> CHR ''-'' \<and> c \<noteq> CHR ''+''" using all by (auto simp: is_digit_def)
  show ?thesis
  proof (cases "k < 0")
    case True
    then have s: "py_str k = CHR ''-'' # c # cs" using cs by (simp add: py_str_def)
    have "strip (py_str k) = py_str k"
      unfolding s using lastd by (intro strip_id) (simp_all add: is_space_def)
    then show ?thesis
      using True parse_unsigned_digits_of[of ?n] cs by (simp add: py_int_def s)
  next
    case False
    then have s: "py_str k = c # cs" using cs by (simp add: py_str_def)
    have "strip (py_str k) = py_str k"
      unfolding s using lastd all by (intro strip_id) simp_all
    then show ?thesis
      using False parse_unsigned_digits_of[of ?n] cs cne by (simp add: py_int_def s)
  qed
qed

lemma canonical_key_iff: "canonical_key s \<longleftrightarrow> (\<exists>k. s = py_str k)"
  by (auto simp: canonical_key_def py_int_py_str split: option.splits)

section \<open>The backtrace of the longest common subsequence\<close>

text \<open>
  C1 (as amended). In the backtrace, at a cell \<open>(i, j)\<close> whose elements differ, the row index
  \<open>i\<close> is decremented only when \<^verbatim>\<open>dp[i-1][j]\<close> is strictly greater than \<^verbatim>\<open>dp[i][j-1]\<close>;
  otherwise, and in particular when the two are equal, the column index \<open>j\<close> is decremented.
  Both versions of the loop behave so.
\<close>

theorem backtrace_tie_break:
  assumes "0 < i" "0 < j" "seq1 ! (i - 1) \<noteq> seq2 ! (j - 1)"
  shows "(dp ! (i - 1) ! j > dp ! i ! (j - 1) \<longrightarrow>
            backtrace_step seq1 seq2 dp (i, j, lcs) = (i - 1, j, lcs)
          \<and> index_step seq1 seq2 dp (i, j, indices) = (i - 1, j, indices))
       \<and> (dp ! (i - 1) ! j \<le> dp ! i ! (j - 1) \<longrightarrow>
            backtrace_step seq1 seq2 dp (i, j, lcs) = (i, j - 1, lcs)
          \<and> index_step seq1 seq2 dp (i, j, indices) = (i, j - 1, indices))"
  using assms by (simp add: backtrace_step_def index_step_def)

theorem backtrace_tie_break_witness:
  "(0::nat) < 2 \<and> [0::int, 1] ! (2 - 1) \<noteq> [1::int, 0] ! (2 - 1)
   \<and> lcs_table [0::int, 1] [1::int, 0] ! (2 - 1) ! 2
        \<le> lcs_table [0::int, 1] [1::int, 0] ! 2 ! (2 - 1)
   \<and> backtrace_step [0::int, 1] [1::int, 0] (lcs_table [0::int, 1] [1::int, 0]) (2, 2, [])
        = (2, 2 - 1, [])
   \<and> index_step [0::int, 1] [1::int, 0] (lcs_table [0::int, 1] [1::int, 0]) (2, 2, [])
        = (2, 2 - 1, [])"
proof -
  have t: "lcs_table [0::int, 1] [1::int, 0] = [[0, 0, 0], [0, 0, 1], [0, 1, 1]]"
    by code_simp
  have a: "(0::nat) < 2" by simp
  have b: "[0::int, 1] ! (2 - 1) \<noteq> [1::int, 0] ! (2 - 1)" by simp
  have c: "lcs_table [0::int, 1] [1::int, 0] ! (2 - 1) ! 2
             \<le> lcs_table [0::int, 1] [1::int, 0] ! 2 ! (2 - 1)"
    unfolding t by simp
  show ?thesis
    using a b c backtrace_tie_break [OF a a b, of "lcs_table [0::int, 1] [1::int, 0]" "[]" "[]"]
    by blast
qed

text \<open>
  For \<open>seq1 = [0, 1]\<close> and \<open>seq2 = [1, 0]\<close> the cell \<open>(2, 2)\<close> is a tie between
  \<^verbatim>\<open>dp[1][2]\<close> and \<^verbatim>\<open>dp[2][1]\<close>; the step keeps the row index and moves to column 1,
  so the subsequence returned is \<open>[1]\<close> and not \<open>[0]\<close>.
\<close>

theorem backtrace_tie_counterexample:
  "[0::int, 1] ! (2 - 1) \<noteq> [1::int, 0] ! (2 - 1)
   \<and> lcs_table [0::int, 1] [1::int, 0] ! (2 - 1) ! 2
        = lcs_table [0::int, 1] [1::int, 0] ! 2 ! (2 - 1)
   \<and> backtrace_step [0::int, 1] [1::int, 0] (lcs_table [0::int, 1] [1::int, 0]) (2, 2, [])
        = (2, 1, [])
   \<and> fst (backtrace_step [0::int, 1] [1::int, 0] (lcs_table [0::int, 1] [1::int, 0]) (2, 2, []))
        \<noteq> 2 - 1
   \<and> fst (index_step [0::int, 1] [1::int, 0] (lcs_table [0::int, 1] [1::int, 0]) (2, 2, []))
        \<noteq> 2 - 1
   \<and> longest_common_subsequence [0::int, 1] [1::int, 0] = [1]
   \<and> longest_common_subsequence_with_indices [0::int, 1] [1::int, 0] = [1]"
  by code_simp

section \<open>Concrete records\<close>

text \<open>
  C4. On the record with reference \<open>{"0":"A","1":"B"}\<close> and response \<open>{"0":"B","1":"A"}\<close> the code
  compares the values key by key, finds no value-correct key, and so reports no anchor, no
  misordered key and both reference keys missing.
\<close>

theorem scenario_b_classification:
  "misorder_record [(''0'', Val ''A''), (''1'', Val ''B'')] [(''0'', Val ''B''), (''1'', Val ''A'')]
     = Inr \<lparr>standard_keys = [0, 1], correct_model_keys = [], anchors = [], misorder_keys = []\<rparr>
   \<and> missing_record [(''0'', Val ''A''), (''1'', Val ''B'')] [(''0'', Val ''B''), (''1'', Val ''A'')] = Inr [0, 1]
   \<and> analyze_misorder_errors
         [Some ([(''0'', Val ''A''), (''1'', Val ''B'')], [(''0'', Val ''B''), (''1'', Val ''A'')])] = ([], 1)
   \<and> analyze_missing_errors
         [Some ([(''0'', Val ''A''), (''1'', Val ''B'')], [(''0'', Val ''B''), (''1'', Val ''A'')])]
       = ([(0, 1), (1, 1)], 1)"
  by code_simp

text \<open>
  C7. On the answer set \<open>{"01":"A"}\<close> the key parses to 1, the lookup of \<^verbatim>\<open>d["1"]\<close> raises
  KeyError, the handler does not catch it, and \<^verbatim>\<open>grade_answers\<close> raises as well.
\<close>

theorem noncanonical_key_raises:
  "values_sequence_from_dict True [(''01'', Val ''A'')] = Inl KeyError
   \<and> grade_answers [(''01'', Val ''A'')] [(''01'', Val ''A'')] True True = Inl KeyError"
  by code_simp

text \<open>
  C8. On the answer set \<open>{"1":"A","01":"B"}\<close> every key parses as an integer, yet the value
  sequence is \<open>["A","A"]\<close>: the value of key \<open>"01"\<close> is lost and that of \<open>"1"\<close> appears twice.
\<close>

theorem duplicate_numeric_key_sequence:
  "int_keys [(''1'', Val ''A''), (''01'', Val ''B'')] = Some [1, 1]
   \<and> values_sequence_from_dict True [(''1'', Val ''A''), (''01'', Val ''B'')] = Inr [Val ''A'', Val ''A'']"
  by code_simp

section \<open>Aggregation of hallucination intervals\<close>

lemma update_sum:
  "sum_list (map snd (AList.update k ((case map_of f k of None \<Rightarrow> 0 | Some c \<Rightarrow> c) + 1) f))
     = sum_list (map snd f) + (1::nat)"
  by (induction f) auto

lemma bump_sum: "sum_list (map snd (bump f k)) = sum_list (map snd f) + 1"
  unfolding bump_def by (rule update_sum)

lemma bump_nonempty: "bump f k \<noteq> []"
  unfolding bump_def by (cases f) auto

lemma fold_bump_sum:
  "sum_list (map snd (fold (\<lambda>interval freq. bump freq interval) ivs f))
     = sum_list (map snd f) + length ivs"
  by (induction ivs arbitrary: f) (auto simp: bump_sum)

lemma hallucination_record_shape:
  "hallucination_record s m = Inr res \<Longrightarrow>
   intervals res = List.map_filter (interval_of (model_keys res) (lcs_anchors res))
                                   (hallucination_keys res)"
  by (auto simp: hallucination_record_def Let_def split: sum.splits)

lemma length_map_filter_le: "length (List.map_filter g xs) \<le> length xs"
  by (simp add: map_filter_def)

lemma intervals_length:
  "hallucination_record s m = Inr res \<Longrightarrow> length (intervals res) \<le> length (hallucination_keys res)"
  by (simp add: hallucination_record_shape length_map_filter_le)

lemma step_sum:
  "hallucination_step r (f, t) = (f', t') \<Longrightarrow>
   sum_list (map snd f') \<le> sum_list (map snd f) + 
     (case r of None \<Rightarrow> 0
                        | Some (standard_answers, model_answers) \<Rightarrow>
                            (case hallucination_record standard_answers model_answers of
                               Inl e \<Rightarrow> 0
                             | Inr res \<Rightarrow> length (hallucination_keys res)))"
  using intervals_length
  by (fastforce simp: hallucination_step_def fold_bump_sum split: option.splits sum.splits if_splits)

lemma step_total:
  "hallucination_step r (f, t) = (f', t') \<Longrightarrow>
   t' = t + (case r of None \<Rightarrow> 0
                        | Some (standard_answers, model_answers) \<Rightarrow>
                            (case hallucination_record standard_answers model_answers of
                               Inl e \<Rightarrow> 0
                             | Inr res \<Rightarrow> 1))
   \<and> (f' \<noteq> f \<longrightarrow> t' = t + 1)"
  by (auto simp: hallucination_step_def split: option.splits sum.splits if_splits)

lemma fold_step_inv:
  "fold hallucination_step records (f, t) = (f', t') \<Longrightarrow>
   sum_list (map snd f') \<le> sum_list (map snd f) + hallucinated_key_count records
   \<and> t' = t + classified_count records
   \<and> (f' \<noteq> f \<longrightarrow> t' \<ge> t + 1)"
proof (induction records arbitrary: f t)
  case Nil
  then show ?case by (simp add: hallucinated_key_count_def classified_count_def)
next
  case (Cons r rs)
  obtain f1 t1 where s1: "hallucination_step r (f, t) = (f1, t1)" by (cases "hallucination_step r (f, t)")
  with Cons.prems have rest: "fold hallucination_step rs (f1, t1) = (f', t')" by simp
  note IH = Cons.IH[OF rest]
  note a = step_sum[OF s1] and b = step_total[OF s1]
  have c1: "classified_count (r # rs) = (case r of None \<Rightarrow> 0
                        | Some (standard_answers, model_answers) \<Rightarrow>
                            (case hallucination_record standard_answers model_answers of
                               Inl e \<Rightarrow> 0
                             | Inr res \<Rightarrow> 1)) + classified_count rs"
    by (auto simp: classified_count_def split: option.splits sum.splits)
  have c2: "hallucinated_key_count (r # rs) = (case r of None \<Rightarrow> 0
                        | Some (standard_answers, model_answers) \<Rightarrow>
                            (case hallucination_record standard_answers model_answers of
                               Inl e \<Rightarrow> 0
                             | Inr res \<Rightarrow> length (hallucination_keys res))) + hallucinated_key_count rs"
    by (simp add: hallucinated_key_count_def)
  have "sum_list (map snd f') \<le> sum_list (map snd f) + hallucinated_key_count (r # rs)"
    using IH a unfolding c2 by linarith
  moreover have "t' = t + classified_count (r # rs)" using IH b unfolding c1 by simp
  moreover have "f' \<noteq> f \<longrightarrow> t' \<ge> t + 1" using IH b by (cases "f1 = f") auto
  ultimately show ?case by blast
qed

lemma member_le_sum: "(k, c) \<in> set f \<Longrightarrow> (c::nat) \<le> sum_list (map snd f)"
  by (induction f) auto

text \<open>
  C6 (as amended). Every hallucination row written for a batch carries the number of
  classified records, which is at least 1, and the probability
  \<open>frequency / total_records * 100\<close>, which is not negative. The frequency of an interval
  counts hallucinated keys, not records: it is bounded by the number of hallucinated keys
  of the classified records, and the probability may exceed 100.
\<close>

theorem hallucination_row_bounds:
  assumes "row \<in> set (hallucination_rows records)"
  shows "row_total_records row = classified_count records
       \<and> 1 \<le> row_total_records row
       \<and> row_probability row = of_nat (row_frequency row) / of_nat (row_total_records row) * 100
       \<and> 0 \<le> row_probability row
       \<and> row_frequency row \<le> hallucinated_key_count records"
proof -
  obtain f t where an: "analyze_hallucination_errors records = (f, t)"
    by (cases "analyze_hallucination_errors records")
  from assms an obtain kf kt fr where mem: "((kf, kt), fr) \<in> set f"
    and row: "row = \<lparr>row_key_from = kf, row_key_to = kt, row_frequency = fr,
             row_probability = (if t > 0 then of_nat fr / of_nat t * 100 else 0),
             row_total_records = t\<rparr>"
    by (auto simp: hallucination_rows_def insert_interval_error_stats_def)
  have ne: "f \<noteq> []" using mem by auto
  then have rne: "records \<noteq> []" using an by (auto simp: analyze_hallucination_errors_def)
  then have fo: "fold hallucination_step records ([], 0) = (f, t)"
    using an by (simp add: analyze_hallucination_errors_def)
  from fold_step_inv[OF fo] ne
  have s: "sum_list (map snd f) \<le> hallucinated_key_count records"
    and t: "t = classified_count records" and t1: "1 \<le> t" by auto
  have "fr \<le> hallucinated_key_count records" using member_le_sum[OF mem] s by linarith
  then show ?thesis using row t t1 by simp
qed

theorem hallucination_row_bounds_witness:
  "\<lparr>row_key_from = 0, row_key_to = 5, row_frequency = 2, row_probability = 200,
     row_total_records = 1\<rparr>
     \<in> set (hallucination_rows
              [Some ([(''0'', Val ''A''), (''5'', Val ''B'')],
                     [(''0'', Val ''A''), (''1'', Val ''x''), (''2'', Val ''y''), (''5'', Val ''B'')])])
   \<and> (2::nat) \<le> hallucinated_key_count
              [Some ([(''0'', Val ''A''), (''5'', Val ''B'')],
                     [(''0'', Val ''A''), (''1'', Val ''x''), (''2'', Val ''y''), (''5'', Val ''B'')])]"
proof -
  have m: "\<lparr>row_key_from = 0, row_key_to = 5, row_frequency = 2, row_probability = 200,
     row_total_records = 1\<rparr>
     \<in> set (hallucination_rows
              [Some ([(''0'', Val ''A''), (''5'', Val ''B'')],
                     [(''0'', Val ''A''), (''1'', Val ''x''), (''2'', Val ''y''), (''5'', Val ''B'')])])"
    by code_simp
  show ?thesis using m hallucination_row_bounds[OF m] by simp
qed

text \<open>
  One record whose two hallucinated keys 1 and 2 both fall between the anchors 0 and 5
  gives the interval \<open>(0, 5)\<close> frequency 2 over 1 record, a probability of 200.
\<close>

theorem hallucination_probability_counterexample:
  "hallucination_rows
     [Some ([(''0'', Val ''A''), (''5'', Val ''B'')],
            [(''0'', Val ''A''), (''1'', Val ''x''), (''2'', Val ''y''), (''5'', Val ''B'')])]
     = [\<lparr>row_key_from = 0, row_key_to = 5, row_frequency = 2, row_probability = 200,
         row_total_records = 1\<rparr>]
   \<and> \<not> (200::rat) \<le> 100 \<and> \<not> (2::nat) \<le> 1"
  by code_simp

section \<open>Anchors and hallucination intervals\<close>

lemma scan_left_filter:
  "p \<le> length keys \<Longrightarrow>
   scan_left keys lcs p = (case filter (\<lambda>k. k \<in> set lcs) (take p keys) of
                             [] \<Rightarrow> None | x # xs \<Rightarrow> Some (last (x # xs)))"
proof (induction p)
  case 0
  then show ?case by simp
next
  case (Suc p)
  then have t: "take (Suc p) keys = take p keys @ [keys ! p]"
    by (simp add: take_Suc_conv_app_nth)
  show ?case using Suc by (simp add: t split: list.splits)
qed

lemma scan_right_filter:
  "scan_right keys lcs i = (case filter (\<lambda>k. k \<in> set lcs) (drop i keys) of
                              [] \<Rightarrow> None | x # xs \<Rightarrow> Some x)"
proof (induction keys lcs i rule: scan_right.induct)
  case (1 keys lcs i)
  show ?case
  proof (cases "i < length keys")
    case True
    then have d: "drop i keys = keys ! i # drop (Suc i) keys"
      by (simp add: Cons_nth_drop_Suc)
    show ?thesis using True 1 by (subst scan_right.simps) (simp add: d)
  next
    case False
    then show ?thesis by (subst scan_right.simps) simp
  qed
qed

lemma index_of_le: "index_of xs x \<le> length xs"
  by (simp add: index_of_def length_takeWhile_le)

lemma interval_of_nearest: "interval_of keys lcs h = nearest_anchor_interval keys lcs h"
  unfolding interval_of_def nearest_anchor_interval_def Let_def
  by (simp add: scan_left_filter[OF index_of_le] scan_right_filter split: list.splits)

lemma backtrace_loop_subset:
  "i \<le> length seq1 \<Longrightarrow> j \<le> length seq2 \<Longrightarrow>
   set (backtrace_loop seq1 seq2 dp (i, j, acc)) \<subseteq> set acc \<union> (set seq1 \<inter> set seq2)"
proof (induction seq1 seq2 dp "(i, j, acc)" arbitrary: i j acc rule: backtrace_loop.induct)
  case (1 seq1 seq2 dp i j acc)
  show ?case
  proof (cases "i > 0 \<and> j > 0")
    case False
    then show ?thesis by (subst backtrace_loop.simps) auto
  next
    case True
    obtain i' j' acc' where st: "backtrace_step seq1 seq2 dp (i, j, acc) = (i', j', acc')"
      by (cases "backtrace_step seq1 seq2 dp (i, j, acc)")
    have m1: "seq1 ! (i - 1) \<in> set seq1" using True 1(2) by (intro nth_mem) linarith
    have m2: "seq2 ! (j - 1) \<in> set seq2" using True 1(3) by (intro nth_mem) linarith
    have b: "i' \<le> length seq1 \<and> j' \<le> length seq2
             \<and> set acc' \<subseteq> set acc \<union> (set seq1 \<inter> set seq2)"
    proof (cases "seq1 ! (i - 1) = seq2 ! (j - 1)")
      case eq: True
      then have "i' = i - 1" "j' = j - 1" "acc' = acc @ [seq1 ! (i - 1)]"
        using st by (auto simp: backtrace_step_def)
      then show ?thesis using m1 m2 eq 1(2,3) by auto
    next
      case ne: False
      then have "(i' = i - 1 \<and> j' = j \<or> i' = i \<and> j' = j - 1) \<and> acc' = acc"
        using st by (auto simp: backtrace_step_def split: if_splits)
      then show ?thesis using 1(2,3) by auto
    qed
    have "set (backtrace_loop seq1 seq2 dp (i', j', acc')) \<subseteq> set acc' \<union> (set seq1 \<inter> set seq2)"
      using 1(1)[OF True st] b by blast
    then show ?thesis using True st b by (subst backtrace_loop.simps) auto
  qed
qed

lemma lcs_subset:
  "set (longest_common_subsequence seq1 seq2) \<subseteq> set seq1 \<inter> set seq2"
  using backtrace_loop_subset[of "length seq1" seq1 "length seq2" seq2 "lcs_table seq1 seq2" "[]"]
  by (simp add: longest_common_subsequence_def)

lemma those_map_Some:
  "those (map f xs) = Some ys \<Longrightarrow> ys = map (the \<circ> f) xs \<and> (\<forall>x \<in> set xs. f x \<noteq> None)"
  by (induction xs arbitrary: ys) (auto split: option.splits)

lemma those_map_all:
  "\<forall>x \<in> set xs. f x \<noteq> None \<Longrightarrow> those (map f xs) = Some (map (the \<circ> f) xs)"
  by (induction xs) auto

lemma sorted_int_keys_Inr:
  "sorted_int_keys d = Inr ks \<Longrightarrow>
   ks = sort (map (the \<circ> py_int) (map fst d)) \<and> (\<forall>k \<in> set (map fst d). py_int k \<noteq> None)"
  using those_map_Some[of py_int "map fst d"]
  by (auto simp: sorted_int_keys_def int_keys_def split: option.splits)

lemma correct_keys_loop_Inr:
  "correct_keys_loop s m ks acc = Inr r \<Longrightarrow>
   r = acc @ filter (\<lambda>k. value_correct s m (py_str k)) ks"
  unfolding value_correct_def
proof (induction ks arbitrary: acc)
  case Nil
  then show ?case by simp
next
  case (Cons k ks)
  show ?case
  proof (cases "map_of s (py_str k)")
    case None
    then show ?thesis using Cons.prems Cons.IH[of acc] by simp
  next
    case (Some sv)
    then obtain mv where mv: "map_of m (py_str k) = Some mv"
      using Cons.prems by (cases "map_of m (py_str k)") auto
    show ?thesis
    proof (cases "py_eq mv sv")
      case True
      then show ?thesis using Cons.prems Some mv Cons.IH[of "acc @ [k]"] by simp
    next
      case False
      then show ?thesis using Cons.prems Some mv Cons.IH[of acc] by simp
    qed
  qed
qed

lemma hallucination_record_fields:
  assumes "hallucination_record s m = Inr res"
  shows "\<exists>cmk. sorted_int_keys s = Inr (reference_keys res)
             \<and> sorted_int_keys m = Inr (model_keys res)
             \<and> correct_keys_loop s m (model_keys res) [] = Inr cmk
             \<and> lcs_anchors res = longest_common_subsequence (reference_keys res) cmk
             \<and> hallucination_keys res
                 = filter (\<lambda>k. k \<notin> set (reference_keys res)) (model_keys res)
             \<and> intervals res = List.map_filter (interval_of (model_keys res) (lcs_anchors res))
                                                (hallucination_keys res)"
  using assms by (auto simp: hallucination_record_def Let_def split: sum.splits)

lemma index_of_nth: "x \<in> set xs \<Longrightarrow> index_of xs x < length xs \<and> xs ! index_of xs x = x"
  by (induction xs) (auto simp: index_of_def)

lemma nearest_None_iff:
  assumes "h \<in> set keys" "h \<notin> set anchor_keys" "set anchor_keys \<subseteq> set keys"
  shows "nearest_anchor_interval keys anchor_keys h = None \<longleftrightarrow> anchor_keys = []"
proof
  assume "anchor_keys = []"
  then show "nearest_anchor_interval keys anchor_keys h = None"
    by (simp add: nearest_anchor_interval_def)
next
  assume n: "nearest_anchor_interval keys anchor_keys h = None"
  let ?p = "index_of keys h"
  have p: "?p < length keys" "keys ! ?p = h" using index_of_nth[OF assms(1)] by auto
  have split: "keys = take ?p keys @ h # drop (Suc ?p) keys"
    using id_take_nth_drop[OF p(1)] p(2) by simp
  from n have e: "filter (\<lambda>k. k \<in> set anchor_keys) (take ?p keys) = []"
                 "filter (\<lambda>k. k \<in> set anchor_keys) (drop (Suc ?p) keys) = []"
    by (auto simp: nearest_anchor_interval_def Let_def split: if_splits)
  show "anchor_keys = []"
  proof (rule ccontr)
    assume "anchor_keys \<noteq> []"
    then obtain a where a: "a \<in> set anchor_keys" by (cases anchor_keys) auto
    then have "a \<in> set keys" "a \<noteq> h" using assms(2,3) by auto
    then have "a \<in> set (take ?p keys) \<or> a \<in> set (drop (Suc ?p) keys)"
      using split by (metis Un_iff set_ConsD set_append)
    then show False using e a by (auto simp: filter_empty_conv)
  qed
qed

text \<open>
  C2 (as amended). In a record that is classified, the hallucinated keys are the response
  keys absent from the reference keys, and the intervals emitted are, in order, the
  nearest-anchor intervals of those keys: the nearest anchor before the key in response-key
  order or 0, and the nearest anchor after it or 41. A hallucinated key is left without an
  interval exactly when the record has no anchor at all.
\<close>

theorem hallucination_intervals:
  assumes "hallucination_record standard_answers model_answers = Inr res"
  shows "hallucination_keys res = filter (\<lambda>k. k \<notin> set (reference_keys res)) (model_keys res)
       \<and> intervals res = List.map_filter
            (nearest_anchor_interval (model_keys res) (lcs_anchors res)) (hallucination_keys res)
       \<and> (\<forall>h \<in> set (hallucination_keys res).
            nearest_anchor_interval (model_keys res) (lcs_anchors res) h = None
              \<longleftrightarrow> lcs_anchors res = [])"
proof -
  from hallucination_record_fields[OF assms] obtain cmk where
    f: "correct_keys_loop standard_answers model_answers (model_keys res) [] = Inr cmk"
       "lcs_anchors res = longest_common_subsequence (reference_keys res) cmk"
       "hallucination_keys res = filter (\<lambda>k. k \<notin> set (reference_keys res)) (model_keys res)"
       "intervals res = List.map_filter (interval_of (model_keys res) (lcs_anchors res))
                                                (hallucination_keys res)"
    by blast
  have cmk: "set cmk \<subseteq> set (model_keys res)"
    using correct_keys_loop_Inr[OF f(1)] by auto
  have sub: "set (lcs_anchors res) \<subseteq> set (reference_keys res) \<inter> set (model_keys res)"
    using lcs_subset[of "reference_keys res" cmk] cmk unfolding f(2) by blast
  have iv: "interval_of (model_keys res) (lcs_anchors res)
            = nearest_anchor_interval (model_keys res) (lcs_anchors res)"
    by (rule ext) (rule interval_of_nearest)
  have "\<forall>h \<in> set (hallucination_keys res).
            nearest_anchor_interval (model_keys res) (lcs_anchors res) h = None
              \<longleftrightarrow> lcs_anchors res = []"
  proof
    fix h assume "h \<in> set (hallucination_keys res)"
    then have "h \<in> set (model_keys res)" "h \<notin> set (reference_keys res)"
      unfolding f(3) by auto
    then show "nearest_anchor_interval (model_keys res) (lcs_anchors res) h = None
              \<longleftrightarrow> lcs_anchors res = []"
      using sub by (intro nearest_None_iff) auto
  qed
  then show ?thesis using f(3,4) iv by simp
qed

theorem hallucination_intervals_witness:
  "hallucination_record [(''0'', Val ''A''), (''5'', Val ''B'')]
                        [(''0'', Val ''A''), (''1'', Val ''x''), (''5'', Val ''B''), (''7'', Val ''y'')]
     = Inr \<lparr>reference_keys = [0, 5], model_keys = [0, 1, 5, 7], lcs_anchors = [0, 5],
             hallucination_keys = [1, 7], intervals = [(0, 5), (5, 41)]\<rparr>
   \<and> List.map_filter (nearest_anchor_interval [0, 1, 5, 7] [0, 5]) [1, 7] = [(0, 5), (5, 41)]"
proof -
  have r: "hallucination_record [(''0'', Val ''A''), (''5'', Val ''B'')]
                        [(''0'', Val ''A''), (''1'', Val ''x''), (''5'', Val ''B''), (''7'', Val ''y'')]
     = Inr \<lparr>reference_keys = [0, 5], model_keys = [0, 1, 5, 7], lcs_anchors = [0, 5],
             hallucination_keys = [1, 7], intervals = [(0, 5), (5, 41)]\<rparr>"
    by code_simp
  show ?thesis using r hallucination_intervals[OF r] by simp
qed

text \<open>
  With reference \<open>{"0":"A"}\<close> and response \<open>{"1":"x"}\<close> the key 1 is hallucinated, no
  anchor exists, and the loop skips the key: no interval is emitted.
\<close>

theorem hallucination_no_anchor_counterexample:
  "hallucination_record [(''0'', Val ''A'')] [(''1'', Val ''x'')]
     = Inr \<lparr>reference_keys = [0], model_keys = [1], lcs_anchors = [],
             hallucination_keys = [1], intervals = []\<rparr>
   \<and> interval_of [1] [] 1 = None"
  by code_simp

section \<open>The accuracy returned by grade\_answers\<close>

lemma lookup_all_length: "lookup_all d ks = Inr vs \<Longrightarrow> length vs = length ks"
  by (induction ks arbitrary: vs) (auto split: option.splits sum.splits)

lemma lookup_all_total:
  "set ks \<subseteq> set (map fst d) \<Longrightarrow> \<exists>vs. lookup_all d ks = Inr vs"
proof (induction ks)
  case Nil
  then show ?case by simp
next
  case (Cons k ks)
  then obtain vs where vs: "lookup_all d ks = Inr vs" by auto
  from Cons.prems have "k \<in> fst ` set d" by simp
  then obtain v where "map_of d k = Some v"
    by (metis map_of_eq_None_iff not_Some_eq)
  then show ?case using vs by simp
qed

lemma values_sequence_length:
  assumes "values_sequence_from_dict order_by_key d = Inr vs"
  shows "length vs = length d"
proof (cases order_by_key)
  case False
  then show ?thesis using assms by (auto simp: values_sequence_from_dict_def)
next
  case True
  show ?thesis
  proof (cases "int_keys d")
    case None
    then have "lookup_all d (sort (map fst d)) = Inr vs"
      using assms True by (simp add: values_sequence_from_dict_def)
    then show ?thesis using lookup_all_length by fastforce
  next
    case (Some ks)
    then have "lookup_all d (map py_str (sort ks)) = Inr vs"
      using assms True by (simp add: values_sequence_from_dict_def)
    then have "length vs = length ks" using lookup_all_length by fastforce
    moreover have "length ks = length d"
      using those_map_Some[of py_int "map fst d" ks] Some by (simp add: int_keys_def)
    ultimately show ?thesis by simp
  qed
qed

lemma edit_distance_upper:
  "calculate_edit_distance a b flag \<le> max (length a) (length b)"
  using lev_upper[of "rev a" "rev b"] by (simp add: edit_distance_levenshtein levenshtein_lev)

lemma accuracy_of_bounds: "d \<le> m \<Longrightarrow> 0 \<le> accuracy_of d m \<and> accuracy_of d m \<le> 100"
  by (auto simp: accuracy_of_def divide_simps)

lemma accuracy_of_full: "accuracy_of m m = 0"
  by (simp add: accuracy_of_def)

lemma canonical_int_keys:
  assumes "canonical_dict d"
  shows "\<exists>ks. int_keys d = Some ks \<and> set (map py_str ks) = set (map fst d)"
proof -
  have all: "\<forall>k \<in> set (map fst d). py_int k \<noteq> None \<and> py_str (the (py_int k)) = k"
    using assms by (auto simp: canonical_dict_def canonical_key_def split: option.splits)
  then have "int_keys d = Some (map (the \<circ> py_int) (map fst d))"
    unfolding int_keys_def by (intro those_map_all) blast
  moreover have "set (map py_str (map (the \<circ> py_int) (map fst d))) = set (map fst d)"
    using all by (auto simp: image_iff)
  ultimately show ?thesis by blast
qed

lemma values_sequence_total:
  assumes "canonical_dict d"
  shows "\<exists>vs. values_sequence_from_dict order_by_key d = Inr vs"
proof -
  from canonical_int_keys[OF assms] obtain ks where
    ks: "int_keys d = Some ks" "set (map py_str ks) = set (map fst d)" by blast
  have "set (map py_str (sort ks)) \<subseteq> set (map fst d)" using ks(2) by simp
  from lookup_all_total[OF this] show ?thesis
    using ks(1) by (auto simp: values_sequence_from_dict_def)
qed

lemma count_correct_total:
  "\<forall>k \<in> set ks. py_str k \<in> set (map fst standard) \<Longrightarrow>
   \<exists>n. count_correct student standard ks c = Inr n"
proof (induction ks arbitrary: c)
  case Nil
  then show ?case by simp
next
  case (Cons k ks)
  from Cons.prems have "py_str k \<in> fst ` set standard" by simp
  then obtain tv where tv: "map_of standard (py_str k) = Some tv"
    by (metis map_of_eq_None_iff not_Some_eq)
  show ?case
  proof (cases "map_of student (py_str k)")
    case None
    then show ?thesis using Cons by simp
  next
    case (Some sv)
    then show ?thesis
      using tv Cons.IH[of "if py_eq sv tv then c + 1 else c"] Cons.prems by simp
  qed
qed

lemma key_counts_total:
  assumes "canonical_dict standard"
  shows "\<exists>c. key_counts student standard = Inr c"
proof (cases "int_keys student")
  case None
  then show ?thesis by (simp add: key_counts_def split: option.splits)
next
  case (Some tk)
  from canonical_int_keys[OF assms] obtain sk where
    sk: "int_keys standard = Some sk" "set (map py_str sk) = set (map fst standard)" by blast
  have "\<forall>k \<in> set (sort sk). py_str k \<in> set (map fst standard)" using sk(2) by auto
  from count_correct_total[OF this, of student 0] obtain n where
    "count_correct student standard (sort sk) 0 = Inr n" by blast
  then show ?thesis using Some sk(1) by (simp add: key_counts_def Let_def)
qed

lemma grade_answers_total:
  assumes "canonical_dict standard_answers" "canonical_dict student_answers"
  shows "\<exists>r. grade_answers student_answers standard_answers allow_transposition order_by_key = Inr r"
proof -
  obtain sseq where s: "values_sequence_from_dict order_by_key standard_answers = Inr sseq"
    using values_sequence_total[OF assms(1)] by blast
  obtain tseq where t: "values_sequence_from_dict order_by_key student_answers = Inr tseq"
    using values_sequence_total[OF assms(2)] by blast
  obtain c where c: "key_counts student_answers standard_answers = Inr c"
    using key_counts_total[OF assms(1)] by blast
  show ?thesis
    by (cases c) (simp add: grade_answers_def s t c Let_def)
qed

lemma grade_answers_main:
  assumes "grade_answers student_answers standard_answers allow_transposition order_by_key = Inr r"
    and "standard_answers \<noteq> []" "student_answers \<noteq> []"
  shows "\<exists>sseq tseq. values_sequence_from_dict order_by_key standard_answers = Inr sseq
           \<and> values_sequence_from_dict order_by_key student_answers = Inr tseq
           \<and> accuracy r = accuracy_of (calculate_edit_distance sseq tseq allow_transposition)
                                       (max (length sseq) (length tseq))
           \<and> edit_distance r = int (calculate_edit_distance sseq tseq allow_transposition)"
  using assms
  by (auto simp: grade_answers_def Let_def split: sum.splits prod.splits)

lemma grade_answers_empty:
  assumes "standard_answers = [] \<or> student_answers = []"
  shows "\<exists>r. grade_answers student_answers standard_answers allow_transposition order_by_key = Inr r
           \<and> accuracy r = 0
           \<and> edit_distance r = int (max (length standard_answers) (length student_answers))"
  using assms by (auto simp: grade_answers_def)

text \<open>
  C5. Whenever \<^verbatim>\<open>grade_answers\<close> returns, its accuracy is
  \<open>(1 - editDistance / maxLen) * 100\<close> for the edit distance of the two value sequences and
  the longer of their lengths, and lies between 0 and 100. When the reference or the
  response is empty, and so in particular when the longer length is 0, the function returns
  without an exception and the accuracy is 0. On dictionaries whose keys are canonical
  integer renderings the function always returns.
\<close>

theorem grade_answers_accuracy:
  "(standard_answers = [] \<or> student_answers = [] \<longrightarrow>
      (\<exists>r. grade_answers student_answers standard_answers allow_transposition order_by_key = Inr r
            \<and> accuracy r = 0))
   \<and> (canonical_dict standard_answers \<and> canonical_dict student_answers \<longrightarrow>
      (\<exists>r. grade_answers student_answers standard_answers allow_transposition order_by_key = Inr r))
   \<and> (grade_answers student_answers standard_answers allow_transposition order_by_key = Inr r \<longrightarrow>
        0 \<le> accuracy r \<and> accuracy r \<le> 100
      \<and> (max (length standard_answers) (length student_answers) = 0 \<longrightarrow> accuracy r = 0)
      \<and> (max (length standard_answers) (length student_answers) > 0 \<longrightarrow>
           accuracy r
             = (1 - of_int (edit_distance r)
                    / of_nat (max (length standard_answers) (length student_answers))) * 100)
      \<and> (standard_answers \<noteq> [] \<and> student_answers \<noteq> [] \<longrightarrow>
           (\<exists>sseq tseq.
              values_sequence_from_dict order_by_key standard_answers = Inr sseq
            \<and> values_sequence_from_dict order_by_key student_answers = Inr tseq
            \<and> edit_distance r = int (calculate_edit_distance sseq tseq allow_transposition)
            \<and> accuracy r
                = (1 - of_nat (calculate_edit_distance sseq tseq allow_transposition)
                       / of_nat (max (length sseq) (length tseq))) * 100)))"
proof (intro conjI impI)
  assume "standard_answers = [] \<or> student_answers = []"
  from grade_answers_empty[OF this]
  show "\<exists>r. grade_answers student_answers standard_answers allow_transposition order_by_key = Inr r
            \<and> accuracy r = 0" by blast
next
  assume "canonical_dict standard_answers \<and> canonical_dict student_answers"
  then show "\<exists>r. grade_answers student_answers standard_answers allow_transposition order_by_key = Inr r"
    using grade_answers_total by blast
next
  assume g: "grade_answers student_answers standard_answers allow_transposition order_by_key = Inr r"
  let ?m = "max (length standard_answers) (length student_answers)"
  have main: "0 \<le> accuracy r \<and> accuracy r \<le> 100
      \<and> (?m = 0 \<longrightarrow> accuracy r = 0)
      \<and> (?m > 0 \<longrightarrow> accuracy r = (1 - of_int (edit_distance r) / of_nat ?m) * 100)"
  proof (cases "standard_answers = [] \<or> student_answers = []")
    case True
    from grade_answers_empty[OF True, of allow_transposition order_by_key] g
    have "accuracy r = 0" "edit_distance r = int ?m" by auto
    then show ?thesis by simp
  next
    case False
    with grade_answers_main[OF g] obtain sseq tseq where
      st: "values_sequence_from_dict order_by_key standard_answers = Inr sseq"
          "values_sequence_from_dict order_by_key student_answers = Inr tseq"
          "accuracy r = accuracy_of (calculate_edit_distance sseq tseq allow_transposition)
                                       (max (length sseq) (length tseq))"
          "edit_distance r = int (calculate_edit_distance sseq tseq allow_transposition)"
      by blast
    have len: "length sseq = length standard_answers" "length tseq = length student_answers"
      using values_sequence_length st(1,2) by blast+
    have pos: "?m > 0" using False by (cases standard_answers) auto
    have nz: "?m \<noteq> 0" using pos by (rule gr_implies_not0)
    have f: "accuracy r = (1 - of_int (edit_distance r) / of_nat ?m) * 100"
      using pos by (simp add: st(3,4) len accuracy_of_def)
    have b: "0 \<le> accuracy r \<and> accuracy r \<le> 100"
      using accuracy_of_bounds[OF edit_distance_upper[of sseq tseq allow_transposition]]
      by (simp add: st(3))
    show ?thesis using nz f b by blast
  qed
  show "0 \<le> accuracy r" "accuracy r \<le> 100" using main by blast+
  { assume "?m = 0" then show "accuracy r = 0" using main by blast }
  { assume "?m > 0"
    then show "accuracy r = (1 - of_int (edit_distance r) / of_nat ?m) * 100"
      using main by blast }
  assume ne: "standard_answers \<noteq> [] \<and> student_answers \<noteq> []"
  with grade_answers_main[OF g] obtain sseq tseq where
      st: "values_sequence_from_dict order_by_key standard_answers = Inr sseq"
          "values_sequence_from_dict order_by_key student_answers = Inr tseq"
          "accuracy r = accuracy_of (calculate_edit_distance sseq tseq allow_transposition)
                                       (max (length sseq) (length tseq))"
          "edit_distance r = int (calculate_edit_distance sseq tseq allow_transposition)"
      by blast
  have "length sseq = length standard_answers" using values_sequence_length st(1) by blast
  then have "max (length sseq) (length tseq) > 0" using ne by (cases standard_answers) auto
  then have "accuracy r = (1 - of_nat (calculate_edit_distance sseq tseq allow_transposition)
                       / of_nat (max (length sseq) (length tseq))) * 100"
    using st(3) by (simp add: accuracy_of_def)
  then show "\<exists>sseq tseq.
              values_sequence_from_dict order_by_key standard_answers = Inr sseq
            \<and> values_sequence_from_dict order_by_key student_answers = Inr tseq
            \<and> edit_distance r = int (calculate_edit_distance sseq tseq allow_transposition)
            \<and> accuracy r
                = (1 - of_nat (calculate_edit_distance sseq tseq allow_transposition)
                       / of_nat (max (length sseq) (length tseq))) * 100"
    using st(1,2,4) by blast
qed

theorem grade_answers_accuracy_witness:
  "grade_answers [(''0'', Val ''A''), (''1'', Val ''C'')] [(''0'', Val ''A''), (''1'', Val ''B'')] True True
     = Inr \<lparr>correct_count = 1, answered_count = 2, total = 2, accuracy = 50, edit_distance = 1,
            missing_count = 0, extra_count = 0, wrong_count = 1\<rparr>
   \<and> (50::rat)
       = (1 - of_int 1 / of_nat (max (length [(''0'', Val ''A''), (''1'', Val ''B'')])
                                     (length [(''0'', Val ''A''), (''1'', Val ''C'')]))) * 100
   \<and> (0::rat) \<le> 50 \<and> (50::rat) \<le> 100
   \<and> (\<exists>r. grade_answers [(''0'', Val ''A''), (''1'', Val ''C'')] [] True True = Inr r \<and> accuracy r = 0)"
proof -
  let ?std = "[(''0'', Val ''A''), (''1'', Val ''B'')]"
  let ?stu = "[(''0'', Val ''A''), (''1'', Val ''C'')]"
  let ?r = "\<lparr>correct_count = 1, answered_count = 2, total = 2, accuracy = 50, edit_distance = 1,
            missing_count = 0, extra_count = 0, wrong_count = 1\<rparr>"
  have c: "canonical_dict ?std \<and> canonical_dict ?stu" by code_simp
  have g: "grade_answers ?stu ?std True True = Inr ?r" by code_simp
  have e: "([] :: string dict) = [] \<or> ?stu = []" by simp
  show ?thesis
    using c g e grade_answers_accuracy[of ?std ?stu True True ?r]
          grade_answers_accuracy[of "[]" ?stu True True ?r]
    by simp
qed

section \<open>The three labels of the reference keys\<close>

lemma correct_keys_loop_total:
  "\<forall>k \<in> set ks. py_str k \<in> set (map fst m) \<Longrightarrow> \<exists>r. correct_keys_loop s m ks acc = Inr r"
proof (induction ks arbitrary: acc)
  case Nil
  then show ?case by simp
next
  case (Cons k ks)
  from Cons.prems have "py_str k \<in> fst ` set m" by simp
  then obtain mv where mv: "map_of m (py_str k) = Some mv"
    by (metis map_of_eq_None_iff not_Some_eq)
  show ?case
  proof (cases "map_of s (py_str k)")
    case None
    then show ?thesis using Cons by simp
  next
    case (Some sv)
    then show ?thesis
      using mv Cons.IH[of "if py_eq mv sv then acc @ [k] else acc"] Cons.prems by simp
  qed
qed

lemma missing_correct_keys_step:
  "missing_correct_keys s m ((ks, v) # items) acc =
     (if isdigit ks \<and> value_correct s m ks then
        (case py_int ks of
           None \<Rightarrow> Inl ValueError
         | Some k \<Rightarrow> missing_correct_keys s m items (acc @ [k]))
      else if isdigit ks \<and> map_of s ks \<noteq> None \<and> map_of m ks = None then Inl KeyError
      else missing_correct_keys s m items acc)"
  by (auto simp: value_correct_def split: option.splits)

lemma missing_correct_keys_set:
  "missing_correct_keys s m items acc = Inr r \<Longrightarrow>
   set r = set acc \<union> {k. \<exists>ks \<in> set (map fst items).
                             isdigit ks \<and> value_correct s m ks \<and> py_int ks = Some k}"
proof (induction items arbitrary: acc)
  case Nil
  then show ?case by simp
next
  case (Cons it items)
  obtain ks v where it: "it = (ks, v)" by (cases it)
  note step = missing_correct_keys_step[of s m ks v items acc]
  show ?case
  proof (cases "isdigit ks \<and> value_correct s m ks")
    case False
    then have "missing_correct_keys s m items acc = Inr r"
      using Cons.prems it step by (auto split: if_splits)
    from Cons.IH[OF this] show ?thesis using False it by auto
  next
    case True
    then obtain k where k: "py_int ks = Some k"
      using Cons.prems it step by (cases "py_int ks") auto
    then have "missing_correct_keys s m items (acc @ [k]) = Inr r"
      using Cons.prems it True step by auto
    from Cons.IH[OF this] show ?thesis using True it k by auto
  qed
qed

lemma missing_correct_keys_total:
  "\<forall>ks \<in> set (map fst items). py_int ks \<noteq> None \<and> map_of m ks \<noteq> None \<Longrightarrow>
   \<exists>r. missing_correct_keys s m items acc = Inr r"
proof (induction items arbitrary: acc)
  case Nil
  then show ?case by simp
next
  case (Cons it items)
  obtain ks v where it: "it = (ks, v)" by (cases it)
  then obtain k where k: "py_int ks = Some k" and mk: "map_of m ks \<noteq> None"
    using Cons.prems by auto
  have rest: "\<forall>ks \<in> set (map fst items). py_int ks \<noteq> None \<and> map_of m ks \<noteq> None"
    using Cons.prems by simp
  show ?case
    using Cons.IH[OF rest, of acc] Cons.IH[OF rest, of "acc @ [k]"] k mk
    unfolding it missing_correct_keys_step by auto
qed

lemma misorder_record_fields:
  assumes "misorder_record s m = Inr c"
  shows "\<exists>mk. sorted_int_keys s = Inr (standard_keys c)
             \<and> sorted_int_keys m = Inr mk
             \<and> correct_keys_loop s m mk [] = Inr (correct_model_keys c)
             \<and> anchors c = longest_common_subsequence (standard_keys c) (correct_model_keys c)
             \<and> misorder_keys c = filter (\<lambda>k. k \<notin> set (anchors c)) (correct_model_keys c)"
  using assms by (auto simp: misorder_record_def Let_def split: sum.splits)

lemma position_dict_keys:
  assumes "position_dict d" "ks \<in> set (map fst d)"
  shows "isdigit ks \<and> (\<exists>k. py_int ks = Some k \<and> py_str k = ks)"
  using assms
  by (auto simp: position_dict_def canonical_dict_def canonical_key_def split: option.splits)

lemma sorted_int_keys_total:
  "\<forall>k \<in> set (map fst d). py_int k \<noteq> None \<Longrightarrow>
   sorted_int_keys d = Inr (sort (map (the \<circ> py_int) (map fst d)))"
  using those_map_all[of "map fst d" py_int] by (simp add: sorted_int_keys_def int_keys_def)

lemma sorted_int_keys_mem:
  assumes "sorted_int_keys d = Inr ks"
  shows "k \<in> set ks \<longleftrightarrow> (\<exists>x \<in> set (map fst d). py_int x = Some k)"
proof -
  from sorted_int_keys_Inr[OF assms]
  have e: "ks = sort (map (the \<circ> py_int) (map fst d))"
    and p: "\<forall>x \<in> set (map fst d). py_int x \<noteq> None" by blast+
  have "k \<in> set ks \<longleftrightarrow> k \<in> (the \<circ> py_int) ` set (map fst d)"
    unfolding e by (simp only: set_sort set_map)
  also have "\<dots> \<longleftrightarrow> (\<exists>x \<in> set (map fst d). py_int x = Some k)"
  proof
    assume "k \<in> (the \<circ> py_int) ` set (map fst d)"
    then obtain x where x: "x \<in> set (map fst d)" "k = the (py_int x)" by auto
    then have "py_int x = Some k" using p by fastforce
    then show "\<exists>x \<in> set (map fst d). py_int x = Some k" using x(1) by blast
  next
    assume "\<exists>x \<in> set (map fst d). py_int x = Some k"
    then obtain x where x: "x \<in> set (map fst d)" "py_int x = Some k" by blast
    then have "(the \<circ> py_int) x = k" by simp
    then show "k \<in> (the \<circ> py_int) ` set (map fst d)" using x(1) by blast
  qed
  finally show ?thesis .
qed

lemma value_correct_keys:
  "value_correct s m k \<Longrightarrow> k \<in> set (map fst s) \<and> k \<in> set (map fst m)"
proof -
  assume "value_correct s m k"
  then have "map_of s k \<noteq> None" "map_of m k \<noteq> None"
    by (auto simp: value_correct_def split: option.splits)
  then show ?thesis by (simp add: map_of_eq_None_iff)
qed

text \<open>
  When the reference keys are canonical digit strings and the misorder analysis classifies
  the record, the missing analysis classifies it too, and the anchors (Correct), the
  value-correct keys outside the anchors (Misorder) and the reference keys without a
  value-correct entry (Missing) are pairwise disjoint with the reference keys as their union.
\<close>

lemma partition_when_classified:
  assumes "position_dict standard_answers"
    and "misorder_record standard_answers model_answers = Inr c"
  shows "\<exists>missing.
           missing_record standard_answers model_answers = Inr missing
         \<and> set (anchors c) \<inter> set (misorder_keys c) = {}
         \<and> set (anchors c) \<inter> set missing = {}
         \<and> set (misorder_keys c) \<inter> set missing = {}
         \<and> set (anchors c) \<union> set (misorder_keys c) \<union> set missing = set (standard_keys c)"
proof -
  let ?s = standard_answers and ?m = model_answers
  let ?sk = "standard_keys c" and ?cmk = "correct_model_keys c"
  from misorder_record_fields[OF assms(2)] obtain mk where
    sk: "sorted_int_keys ?s = Inr ?sk" and mk: "sorted_int_keys ?m = Inr mk"
    and cmk: "correct_keys_loop ?s ?m mk [] = Inr ?cmk"
    and an: "anchors c = longest_common_subsequence ?sk ?cmk"
    and mis: "misorder_keys c = filter (\<lambda>k. k \<notin> set (anchors c)) ?cmk" by blast
  have cmk_mem: "\<And>k. k \<in> set ?cmk \<longleftrightarrow> k \<in> set mk \<and> value_correct ?s ?m (py_str k)"
    using correct_keys_loop_Inr[OF cmk] by simp
  have mparse: "\<forall>ks \<in> set (map fst ?m). py_int ks \<noteq> None \<and> map_of ?m ks \<noteq> None"
  proof
    fix ks assume ks: "ks \<in> set (map fst ?m)"
    have "py_int ks \<noteq> None" using sorted_int_keys_Inr[OF mk] ks by blast
    moreover have "map_of ?m ks \<noteq> None" using ks by (simp add: map_of_eq_None_iff)
    ultimately show "py_int ks \<noteq> None \<and> map_of ?m ks \<noteq> None" by blast
  qed
  obtain ck where ck: "missing_correct_keys ?s ?m ?m [] = Inr ck"
    using missing_correct_keys_total[OF mparse] by blast
  let ?missing = "filter (\<lambda>key. key \<notin> set ck) ?sk"
  have rec: "missing_record ?s ?m = Inr ?missing"
    by (simp add: missing_record_def sk ck)
  have ck_mem: "\<And>k. k \<in> set ck \<longleftrightarrow> (\<exists>ks \<in> set (map fst ?m).
                             isdigit ks \<and> value_correct ?s ?m ks \<and> py_int ks = Some k)"
    using missing_correct_keys_set[OF ck] by simp
  have same: "set ?cmk = set ck"
  proof (intro set_eqI iffI)
    fix k assume "k \<in> set ?cmk"
    then have vc: "value_correct ?s ?m (py_str k)" using cmk_mem by blast
    from value_correct_keys[OF vc]
    have ins: "py_str k \<in> set (map fst ?s)" and inm: "py_str k \<in> set (map fst ?m)" by blast+
    have "isdigit (py_str k)" using position_dict_keys[OF assms(1) ins] by blast
    then show "k \<in> set ck" using ck_mem[of k] inm vc py_int_py_str[of k] by blast
  next
    fix k assume "k \<in> set ck"
    then obtain ks where ks: "ks \<in> set (map fst ?m)" "value_correct ?s ?m ks" "py_int ks = Some k"
      using ck_mem[of k] by blast
    have "ks \<in> set (map fst ?s)" using value_correct_keys[OF ks(2)] by blast
    from position_dict_keys[OF assms(1) this] ks(3) have str: "py_str k = ks" by auto
    have "k \<in> set mk" using sorted_int_keys_mem[OF mk, of k] ks(1,3) by blast
    then show "k \<in> set ?cmk" using cmk_mem[of k] ks(2) str by simp
  qed
  have cmk_sk: "set ?cmk \<subseteq> set ?sk"
  proof
    fix k assume "k \<in> set ?cmk"
    then have "value_correct ?s ?m (py_str k)" using cmk_mem by blast
    then have "py_str k \<in> set (map fst ?s)" using value_correct_keys by blast
    then show "k \<in> set ?sk" using sorted_int_keys_mem[OF sk, of k] py_int_py_str[of k] by blast
  qed
  have lcs_cmk: "set (anchors c) \<subseteq> set ?cmk" unfolding an using lcs_subset[of ?sk ?cmk] by blast
  have m1: "set (misorder_keys c) = set ?cmk - set (anchors c)" unfolding mis by auto
  have m2: "set ?missing = set ?sk - set ck" by auto
  have "set (anchors c) \<inter> set (misorder_keys c) = {}
         \<and> set (anchors c) \<inter> set ?missing = {}
         \<and> set (misorder_keys c) \<inter> set ?missing = {}
         \<and> set (anchors c) \<union> set (misorder_keys c) \<union> set ?missing = set ?sk"
    unfolding m1 m2 using same cmk_sk lcs_cmk by blast
  then show ?thesis using rec by blast
qed

text \<open>
  C3. With the canonical reference \<open>{"0":"A","1":"B"}\<close> and the response
  \<open>{"00":"A","1":"B"}\<close>, whose keys all parse as integers, the misorder analysis looks up
  \<^verbatim>\<open>model_answers["0"]\<close>, raises KeyError and skips the record, so no reference key is
  labelled Correct or Misorder; the missing analysis classifies the same record and counts
  only key 0. Key 1 is in none of the three sets.
\<close>

theorem padded_response_key_unlabelled:
  "int_keys [(''0'', Val ''A''), (''1'', Val ''B'')] = Some [0, 1]
   \<and> int_keys [(''00'', Val ''A''), (''1'', Val ''B'')] = Some [0, 1]
   \<and> misorder_record [(''0'', Val ''A''), (''1'', Val ''B'')]
                     [(''00'', Val ''A''), (''1'', Val ''B'')] = Inl KeyError
   \<and> missing_record [(''0'', Val ''A''), (''1'', Val ''B'')]
                    [(''00'', Val ''A''), (''1'', Val ''B'')] = Inr [0]
   \<and> analyze_misorder_errors
         [Some ([(''0'', Val ''A''), (''1'', Val ''B'')],
                [(''00'', Val ''A''), (''1'', Val ''B'')])] = ([], 0)
   \<and> analyze_missing_errors
         [Some ([(''0'', Val ''A''), (''1'', Val ''B'')],
                [(''00'', Val ''A''), (''1'', Val ''B'')])] = ([(0, 1)], 1)"
  by code_simp

section \<open>The table and the backtrace compute a longest common subsequence\<close>

lemma lcs_dp_0_right: "lcs_dp a b i 0 = 0"
  by (cases i) auto

lemma lcs_local: "local_rule (lcs_dp a b) (lcs_cell a b) m n"
  unfolding local_rule_def lcs_cell_def
proof (intro allI impI)
  fix dp :: "nat list list" and i j
  assume h: "1 \<le> i \<and> i \<le> m \<and> 1 \<le> j \<and> j \<le> n \<and>
        dp ! (i - 1) ! j = lcs_dp a b (i - 1) j \<and> dp ! i ! (j - 1) = lcs_dp a b i (j - 1) \<and>
        dp ! (i - 1) ! (j - 1) = lcs_dp a b (i - 1) (j - 1)"
  then obtain i' j' where "i = Suc i'" "j = Suc j'"
    by (metis One_nat_def Suc_le_D)
  with h show "(if a ! (i - 1) = b ! (j - 1) then dp ! (i - 1) ! (j - 1) + 1
          else max (dp ! (i - 1) ! j) (dp ! i ! (j - 1))) = lcs_dp a b i j"
    by simp
qed

lemma lcs_table_correct:
  assumes "r \<le> length a" "c \<le> length b"
  shows "lcs_table a b ! r ! c = lcs_dp a b r c"
proof -
  let ?m = "length a" and ?n = "length b"
  let ?dp0 = "replicate (?m + 1) (replicate (?n + 1) (0::nat))"
  have z: "\<forall>r c. r \<le> ?m \<and> c \<le> ?n \<longrightarrow> ?dp0 ! r ! c = 0"
    by (auto simp: nth_Cons' )
  have "filled (lcs_dp a b) ?dp0 ?m ?n 1 1"
    unfolding filled_def using zero_dims[of ?m ?n] z by (auto simp: lcs_dp_0_right)
  from fill_rows[OF lcs_local _ this, of ?m]
  have "filled (lcs_dp a b) (lcs_table a b) ?m ?n (?m + 1) 1"
    by (simp add: lcs_table_def Let_def)
  then show ?thesis using assms unfolding filled_def by simp
qed

lemma lcs_dp_le: "lcs_dp a b i j \<le> j"
  by (induction a b i j rule: lcs_dp.induct) auto

lemma subseq_snoc_neq:
  assumes "subseq (bs @ [y]) (as @ [x])" "x \<noteq> y"
  shows "subseq (bs @ [y]) as"
proof -
  from assms(1) obtain xs1 xs2 where s: "bs @ [y] = xs1 @ xs2" "subseq xs1 as" "subseq xs2 [x]"
    by (auto simp: subseq_append_iff)
  from s(3) have "xs2 = [] \<or> xs2 = [x]"
    by (cases xs2) (auto split: if_splits)
  then show ?thesis
  proof
    assume "xs2 = []" then show ?thesis using s by simp
  next
    assume "xs2 = [x]"
    then have "y = x" using s(1) by (metis last_snoc)
    then show ?thesis using assms(2) by simp
  qed
qed

lemma lcs_dp_subseq:
  "i \<le> length a \<Longrightarrow> j \<le> length b \<Longrightarrow> subseq (take j b) (take i a) \<Longrightarrow> lcs_dp a b i j = j"
proof (induction a b i j rule: lcs_dp.induct)
  case (1 a b j)
  then show ?case using list_emb_length[of "(=)" "take j b" "[]"] by simp
next
  case (2 a b i)
  then show ?case by simp
next
  case (3 a b i j)
  have ta: "take (Suc i) a = take i a @ [a ! i]" and tb: "take (Suc j) b = take j b @ [b ! j]"
    using 3(4,5) by (simp_all add: take_Suc_conv_app_nth)
  show ?case
  proof (cases "a ! i = b ! j")
    case True
    then have "subseq (take j b) (take i a)" using 3(6) unfolding ta tb by simp
    then show ?thesis using 3(1)[OF True] 3(4,5) True by simp
  next
    case False
    from 3(6) have "subseq (take j b @ [b ! j]) (take i a @ [a ! i])" unfolding ta tb .
    from subseq_snoc_neq[OF this False]
    have "subseq (take (Suc j) b) (take i a)" unfolding tb .
    then have "lcs_dp a b i (Suc j) = Suc j" using 3(2)[OF False] 3(4,5) by simp
    moreover have "lcs_dp a b (Suc i) j \<le> j" by (rule lcs_dp_le)
    ultimately show ?thesis using False by simp
  qed
qed

lemma backtrace_loop_lcs:
  assumes tbl: "\<forall>r c. r \<le> length a \<and> c \<le> length b \<longrightarrow> dp ! r ! c = lcs_dp a b r c"
  shows "i \<le> length a \<Longrightarrow> j \<le> length b \<Longrightarrow>
         \<exists>zs. backtrace_loop a b dp (i, j, acc) = acc @ zs \<and> subseq (rev zs) (take j b)
              \<and> length zs = lcs_dp a b i j"
  using tbl
proof (induction a b dp "(i, j, acc)" arbitrary: i j acc rule: backtrace_loop.induct)
  case (1 a b dp i j acc)
  show ?case
  proof (cases "i > 0 \<and> j > 0")
    case False
    then have "backtrace_loop a b dp (i, j, acc) = acc" by (subst backtrace_loop.simps) auto
    moreover have "lcs_dp a b i j = 0" using False by (cases i) (auto simp: lcs_dp_0_right)
    ultimately show ?thesis by simp
  next
    case True
    then obtain i' j' where ij: "i = Suc i'" "j = Suc j'" by (metis Suc_pred')
    have unf: "backtrace_loop a b dp (i, j, acc)
               = backtrace_loop a b dp (backtrace_step a b dp (i, j, acc))"
      using True by (subst backtrace_loop.simps) simp
    have tb: "take (Suc j') b = take j' b @ [b ! j']"
      using 1(3) ij by (simp add: take_Suc_conv_app_nth)
    have d1: "dp ! i' ! j = lcs_dp a b i' j" and d2: "dp ! i ! j' = lcs_dp a b i j'"
      using 1(2,3,4) ij by auto
    show ?thesis
    proof (cases "a ! i' = b ! j'")
      case eq: True
      then have st: "backtrace_step a b dp (i, j, acc) = (i', j', acc @ [a ! i'])"
        using ij by (simp add: backtrace_step_def)
      from 1(1)[OF True st] 1(2,3,4) ij obtain zs where
        zs: "backtrace_loop a b dp (i', j', acc @ [a ! i']) = (acc @ [a ! i']) @ zs"
            "subseq (rev zs) (take j' b)" "length zs = lcs_dp a b i' j'" by auto
      have "subseq (rev (a ! i' # zs)) (take j b)"
        using zs(2) eq unfolding ij tb by simp
      moreover have "length (a ! i' # zs) = lcs_dp a b i j" using zs(3) eq ij by simp
      moreover have "backtrace_loop a b dp (i, j, acc) = acc @ (a ! i' # zs)"
        using unf st zs(1) by simp
      ultimately show ?thesis by blast
    next
      case ne: False
      show ?thesis
      proof (cases "dp ! i' ! j > dp ! i ! j'")
        case gt: True
        then have st: "backtrace_step a b dp (i, j, acc) = (i', j, acc)"
          using ij ne by (simp add: backtrace_step_def)
        from 1(1)[OF True st] 1(2,3,4) ij obtain zs where
          zs: "backtrace_loop a b dp (i', j, acc) = acc @ zs"
              "subseq (rev zs) (take j b)" "length zs = lcs_dp a b i' j" by auto
        have "lcs_dp a b i j = lcs_dp a b i' j" using gt d1 d2 ne ij by simp
        then show ?thesis using unf st zs by auto
      next
        case le: False
        then have st: "backtrace_step a b dp (i, j, acc) = (i, j', acc)"
          using ij ne by (simp add: backtrace_step_def)
        from 1(1)[OF True st] 1(2,3,4) ij obtain zs where
          zs: "backtrace_loop a b dp (i, j', acc) = acc @ zs"
              "subseq (rev zs) (take j' b)" "length zs = lcs_dp a b i j'" by auto
        have "subseq (rev zs) (take j b)"
          using zs(2) unfolding ij tb by (rule subseq_rev_drop_many)
        moreover have "lcs_dp a b i j = lcs_dp a b i j'" using le d1 d2 ne ij by simp
        ultimately show ?thesis using unf st zs by auto
      qed
    qed
  qed
qed

lemma lcs_of_subseq:
  assumes "subseq seq2 seq1"
  shows "longest_common_subsequence seq1 seq2 = seq2"
proof -
  have tbl: "\<forall>r c. r \<le> length seq1 \<and> c \<le> length seq2 \<longrightarrow>
               lcs_table seq1 seq2 ! r ! c = lcs_dp seq1 seq2 r c"
    using lcs_table_correct by blast
  from backtrace_loop_lcs[OF tbl, of "length seq1" "length seq2" "[]"] obtain zs where
    zs: "backtrace_loop seq1 seq2 (lcs_table seq1 seq2) (length seq1, length seq2, []) = zs"
        "subseq (rev zs) seq2" "length zs = lcs_dp seq1 seq2 (length seq1) (length seq2)"
    by auto
  have "lcs_dp seq1 seq2 (length seq1) (length seq2) = length seq2"
    using lcs_dp_subseq[of "length seq1" seq1 "length seq2" seq2] assms by simp
  then have "rev zs = seq2" using zs(2,3) by (intro subseq_same_length) simp_all
  then show ?thesis using zs(1) by (simp add: longest_common_subsequence_def)
qed

section \<open>Key-wise comparison leaves nothing to misorder\<close>

text \<open>On dictionaries with canonical integer keys the value-correct keys are an ascending
  sublist of the ascending reference keys, so all of them are anchors and the list of
  misordered keys is always empty.\<close>

lemma canonical_dict_keys:
  assumes "canonical_dict d" "ks \<in> set (map fst d)"
  shows "\<exists>k. py_int ks = Some k \<and> py_str k = ks"
  using assms
  by (auto simp: canonical_dict_def canonical_key_def split: option.splits)

lemma canonical_sorted_int_keys:
  assumes "canonical_dict d"
  shows "\<exists>ks. sorted_int_keys d = Inr ks \<and> sorted ks \<and> distinct ks
              \<and> (\<forall>k \<in> set ks. py_str k \<in> set (map fst d))"
proof -
  let ?f = "the \<circ> py_int"
  have parse: "\<forall>k \<in> set (map fst d). py_int k \<noteq> None"
  proof
    fix k assume "k \<in> set (map fst d)"
    from canonical_dict_keys[OF assms this] show "py_int k \<noteq> None" by auto
  qed
  have ks: "sorted_int_keys d = Inr (sort (map ?f (map fst d)))"
    by (rule sorted_int_keys_total[OF parse])
  have inj: "inj_on ?f (set (map fst d))"
  proof (rule inj_onI)
    fix x y assume x: "x \<in> set (map fst d)" and y: "y \<in> set (map fst d)" and e: "?f x = ?f y"
    from canonical_dict_keys[OF assms x] canonical_dict_keys[OF assms y] e
    show "x = y" by auto
  qed
  have dist: "distinct (map ?f (map fst d))"
    using assms inj unfolding canonical_dict_def by (simp only: distinct_map)
  have str: "\<forall>k \<in> set (sort (map ?f (map fst d))). py_str k \<in> set (map fst d)"
  proof
    fix k assume "k \<in> set (sort (map ?f (map fst d)))"
    then obtain x where x: "x \<in> set (map fst d)" "py_int x = Some k"
      using sorted_int_keys_mem[OF ks, of k] by blast
    from canonical_dict_keys[OF assms x(1)] x(2) have "py_str k = x" by auto
    then show "py_str k \<in> set (map fst d)" using x(1) by blast
  qed
  show ?thesis using ks dist str by (intro exI[of _ "sort (map ?f (map fst d))"]) simp
qed

lemma sorted_distinct_subseq:
  fixes xs ys :: "int list"
  assumes "sorted xs" "distinct xs" "sorted ys" "distinct ys" "set xs \<subseteq> set ys"
  shows "subseq xs ys"
proof -
  let ?zs = "filter (\<lambda>y. y \<in> set xs) ys"
  have "sorted ?zs" using assms(3) by (rule sorted_wrt_filter)
  moreover have "distinct ?zs" using assms(4) by simp
  moreover have "set xs = set ?zs" using assms(5) by auto
  ultimately have "xs = ?zs" using assms(1,2) by (intro sorted_distinct_set_unique)
  moreover have "subseq ?zs ys" by simp
  ultimately show ?thesis by simp
qed

lemma misorder_never_reported:
  assumes "canonical_dict standard_answers" "canonical_dict model_answers"
  shows "\<exists>c. misorder_record standard_answers model_answers = Inr c
            \<and> anchors c = correct_model_keys c \<and> misorder_keys c = []"
proof -
  let ?s = standard_answers and ?m = model_answers
  let ?P = "\<lambda>k. value_correct ?s ?m (py_str k)"
  from canonical_sorted_int_keys[OF assms(1)] obtain sk where
    sk: "sorted_int_keys ?s = Inr sk" "sorted sk" "distinct sk" by blast
  from canonical_sorted_int_keys[OF assms(2)] obtain mk where
    mk: "sorted_int_keys ?m = Inr mk" "sorted mk" "distinct mk"
        "\<forall>k \<in> set mk. py_str k \<in> set (map fst ?m)" by blast
  obtain cmk where cmk: "correct_keys_loop ?s ?m mk [] = Inr cmk"
    using correct_keys_loop_total[OF mk(4)] by blast
  have cmk_eq: "cmk = filter ?P mk" using correct_keys_loop_Inr[OF cmk] by simp
  have c1: "sorted cmk" unfolding cmk_eq using mk(2) by (rule sorted_wrt_filter)
  have c2: "distinct cmk" unfolding cmk_eq using mk(3) by simp
  have c3: "set cmk \<subseteq> set sk"
  proof
    fix k assume "k \<in> set cmk"
    then have "value_correct ?s ?m (py_str k)" unfolding cmk_eq by simp
    then have "py_str k \<in> set (map fst ?s)" using value_correct_keys by blast
    then show "k \<in> set sk" using sorted_int_keys_mem[OF sk(1), of k] py_int_py_str[of k] by blast
  qed
  have "subseq cmk sk" using c1 c2 sk(2,3) c3 by (rule sorted_distinct_subseq)
  then have l: "longest_common_subsequence sk cmk = cmk" by (rule lcs_of_subseq)
  show ?thesis by (simp add: misorder_record_def sk(1) mk(1) cmk l Let_def)
qed

section \<open>The two orderings of values\_sequence\_from\_dict\<close>

lemma lookup_all_Inr:
  "set ks \<subseteq> set (map fst d) \<Longrightarrow> lookup_all d ks = Inr (map (the \<circ> map_of d) ks)"
proof (induction ks)
  case Nil
  then show ?case by simp
next
  case (Cons k ks)
  from Cons.prems have "k \<in> fst ` set d" by simp
  then obtain v where "map_of d k = Some v"
    by (metis map_of_eq_None_iff not_Some_eq)
  then show ?case using Cons by simp
qed

lemma values_sequence_numeric:
  assumes "canonical_dict d"
  shows "\<exists>ks. int_keys d = Some ks
            \<and> values_sequence_from_dict True d
                = Inr (map (the \<circ> map_of d) (map py_str (sort ks)))"
proof -
  from canonical_int_keys[OF assms] obtain ks where
    ks: "int_keys d = Some ks" "set (map py_str ks) = set (map fst d)" by blast
  have "set (map py_str (sort ks)) \<subseteq> set (map fst d)" using ks(2) by simp
  from lookup_all_Inr[OF this] show ?thesis
    using ks(1) by (simp add: values_sequence_from_dict_def)
qed

lemma values_sequence_fallback:
  assumes "int_keys d = None"
  shows "values_sequence_from_dict True d = Inr (map (the \<circ> map_of d) (sort (map fst d)))"
proof -
  have "set (sort (map fst d)) \<subseteq> set (map fst d)" by simp
  from lookup_all_Inr[OF this] show ?thesis
    using assms by (simp add: values_sequence_from_dict_def)
qed

end
